theory Spec2Isabelle
  imports Complex_Main "HOL-Library.Log_Nat"
begin

section \<open>JavaScript numbers and strings\<close>

text \<open>
  A JavaScript number is a 64-bit binary floating-point number. A finite one is modelled by
  the rational it denotes, beside the three special values; the sign of zero is not
  modelled (zero is \<open>+0\<close>). An arithmetic operation on finite numbers computes the exact
  rational result and rounds it to the nearest number that 64 bits can hold, a tie going
  to the even significand, and to an infinity beyond the largest of them.

  A JavaScript string whose code units are all below 256 is an Isabelle \<open>string\<close> of the
  same code units.
\<close>

datatype jsnum = Fin rat | NaN | PInf | NInf

definition sgn_inf :: "bool \<Rightarrow> jsnum" where
  "sgn_inf pos = (if pos then PInf else NInf)"

subsection \<open>Rounding to 64 bits\<close>

text \<open>
  \<open>ilog2 x\<close> is the exponent of the positive \<open>x\<close>: \<open>2 ^ ilog2 x \<le> x < 2 ^ (ilog2 x + 1)\<close>.
  A number with exponent \<open>e\<close> is a multiple of \<open>2 ^ (e - 52)\<close>, its significand having 53
  bits; below the exponent \<open>-1022\<close> the spacing stays that of \<open>-1022\<close>.
\<close>

definition ilog2 :: "rat \<Rightarrow> int" where
  "ilog2 x = (if 1 \<le> x then bitlen \<lfloor>x\<rfloor> - 1 else - bitlen (\<lceil>1 / x\<rceil> - 1))"

definition dexp :: "rat \<Rightarrow> int" where
  "dexp x = max (ilog2 x) (- 1022)"

text \<open>The nearest integer, a tie going to the even one.\<close>

definition round_even :: "rat \<Rightarrow> int" where
  "round_even m =
     (let f = \<lfloor>m\<rfloor>; r = m - of_int f
      in if r < 1 / 2 then f else if 1 / 2 < r then f + 1 else if even f then f else f + 1)"

definition round_pos :: "rat \<Rightarrow> rat" where
  "round_pos x = (let u = 2 powi (dexp x - 52) in of_int (round_even (x / u)) * u)"

text \<open>The number for a rational: rounded, and infinite from \<open>2 ^ 1024\<close> on.\<close>

definition number :: "rat \<Rightarrow> jsnum" where
  "number x =
     (if x = 0 then Fin 0
      else
        let y = round_pos \<bar>x\<bar>
        in if 2 ^ 1024 \<le> y then sgn_inf (0 < x) else Fin (if 0 < x then y else - y))"

subsection \<open>Arithmetic\<close>

fun js_neg :: "jsnum \<Rightarrow> jsnum" where
  "js_neg (Fin x) = Fin (- x)"
| "js_neg NaN = NaN"
| "js_neg PInf = NInf"
| "js_neg NInf = PInf"

fun js_add :: "jsnum \<Rightarrow> jsnum \<Rightarrow> jsnum" where
  "js_add NaN _ = NaN"
| "js_add _ NaN = NaN"
| "js_add (Fin x) (Fin y) = number (x + y)"
| "js_add PInf NInf = NaN"
| "js_add NInf PInf = NaN"
| "js_add PInf _ = PInf"
| "js_add NInf _ = NInf"
| "js_add (Fin x) PInf = PInf"
| "js_add (Fin x) NInf = NInf"

definition js_sub :: "jsnum \<Rightarrow> jsnum \<Rightarrow> jsnum" where
  "js_sub a b = js_add a (js_neg b)"

text \<open>The sign of a number that is not NaN, as needed by the rules for infinities.\<close>

fun is_pos :: "jsnum \<Rightarrow> bool" where
  "is_pos (Fin x) = (0 \<le> x)"
| "is_pos PInf = True"
| "is_pos NInf = False"
| "is_pos NaN = True"

fun js_mul :: "jsnum \<Rightarrow> jsnum \<Rightarrow> jsnum" where
  "js_mul NaN _ = NaN"
| "js_mul _ NaN = NaN"
| "js_mul (Fin x) (Fin y) = number (x * y)"
| "js_mul (Fin x) b = (if x = 0 then NaN else sgn_inf (is_pos (Fin x) = is_pos b))"
| "js_mul a (Fin y) = (if y = 0 then NaN else sgn_inf (is_pos a = is_pos (Fin y)))"
| "js_mul a b = sgn_inf (is_pos a = is_pos b)"

fun js_div :: "jsnum \<Rightarrow> jsnum \<Rightarrow> jsnum" where
  "js_div NaN _ = NaN"
| "js_div _ NaN = NaN"
| "js_div (Fin x) (Fin y) =
     (if y = 0 then (if x = 0 then NaN else sgn_inf (0 < x)) else number (x / y))"
| "js_div (Fin x) _ = Fin 0"
| "js_div a (Fin y) = sgn_inf (is_pos a = is_pos (Fin y))"
| "js_div _ _ = NaN"

text \<open>
  \<open>Math.round\<close>: the nearest integer, a tie going towards \<open>+\<infinity>\<close>; the result is exact, an
  integer near a number being a number.
\<close>

fun math_round :: "jsnum \<Rightarrow> jsnum" where
  "math_round (Fin x) = Fin (of_int \<lfloor>x + 1 / 2\<rfloor>)"
| "math_round a = a"

fun math_min :: "jsnum \<Rightarrow> jsnum \<Rightarrow> jsnum" where
  "math_min NaN _ = NaN"
| "math_min _ NaN = NaN"
| "math_min NInf _ = NInf"
| "math_min _ NInf = NInf"
| "math_min PInf b = b"
| "math_min a PInf = a"
| "math_min (Fin x) (Fin y) = Fin (min x y)"

subsection \<open>Strings: \<open>split\<close>, \<open>includes\<close>, \<open>toLowerCase\<close>\<close>

text \<open>\<open>s.split(c)\<close> for a one-character separator: one part more than separators.\<close>

fun js_split :: "char \<Rightarrow> string \<Rightarrow> string list" where
  "js_split c [] = [[]]"
| "js_split c (x # xs) =
     (if x = c then [] # js_split c xs
      else (case js_split c xs of p # ps \<Rightarrow> (x # p) # ps | [] \<Rightarrow> [[x]]))"

fun starts_with :: "string \<Rightarrow> string \<Rightarrow> bool" where
  "starts_with [] s = True"
| "starts_with (p # ps) [] = False"
| "starts_with (p # ps) (x # xs) = (p = x \<and> starts_with ps xs)"

fun includes_str :: "string \<Rightarrow> string \<Rightarrow> bool" where
  "includes_str [] p = (p = [])"
| "includes_str (x # xs) p = (starts_with p (x # xs) \<or> includes_str xs p)"

definition lower_char :: "char \<Rightarrow> char" where
  "lower_char c =
     (let n = of_char c :: nat
      in if (65 \<le> n \<and> n \<le> 90) \<or> (192 \<le> n \<and> n \<le> 222 \<and> n \<noteq> 215)
         then char_of (n + 32) else c)"

definition toLowerCase :: "string \<Rightarrow> string" where
  "toLowerCase s = map lower_char s"

subsection \<open>\<open>parseFloat\<close>\<close>

definition is_digit :: "char \<Rightarrow> bool" where
  "is_digit c = (let n = of_char c :: nat in 48 \<le> n \<and> n \<le> 57)"

definition digit_val :: "char \<Rightarrow> int" where
  "digit_val c = of_char c - 48"

text \<open>The value of a run of decimal digits, most significant first.\<close>

definition dec_val :: "string \<Rightarrow> int" where
  "dec_val ds = foldl (\<lambda>acc c. 10 * acc + digit_val c) 0 ds"

text \<open>White space and line terminators among the code units below 256.\<close>

definition is_space :: "char \<Rightarrow> bool" where
  "is_space c = (of_char c \<in> {9, 10, 11, 12, 13, 32, 160 :: nat})"

text \<open>
  The exponent part \<open>e\<close>, \<open>E\<close> with an optional sign and at least one digit; where it
  is not complete the literal ends before it and the exponent is 0.
\<close>

definition exponent_part :: "string \<Rightarrow> int" where
  "exponent_part s =
     (case s of
        [] \<Rightarrow> 0
      | e # r \<Rightarrow>
          if e = CHR ''e'' \<or> e = CHR ''E'' then
            (case r of
               [] \<Rightarrow> 0
             | sg # r' \<Rightarrow>
                 if sg = CHR ''+'' then dec_val (takeWhile is_digit r')
                 else if sg = CHR ''-'' then - dec_val (takeWhile is_digit r')
                 else dec_val (takeWhile is_digit r))
          else 0)"

definition scale10 :: "rat \<Rightarrow> int \<Rightarrow> rat" where
  "scale10 x e = (if 0 \<le> e then x * 10 ^ nat e else x / 10 ^ nat (- e))"

text \<open>
  The longest prefix that is an unsigned decimal literal, as the number nearest to its
  decimal value.
\<close>

definition unsigned_literal :: "string \<Rightarrow> jsnum" where
  "unsigned_literal s =
     (if starts_with ''Infinity'' s then PInf
      else
        let ip = takeWhile is_digit s; r1 = dropWhile is_digit s
        in (case r1 of
              d # r2 \<Rightarrow>
                if d = CHR ''.'' then
                  (let fp = takeWhile is_digit r2; r3 = dropWhile is_digit r2
                   in if ip = [] \<and> fp = [] then NaN
                      else number (scale10
                             (of_int (dec_val ip) + of_int (dec_val fp) / 10 ^ length fp)
                             (exponent_part r3)))
                else if ip = [] then NaN
                else number (scale10 (of_int (dec_val ip)) (exponent_part r1))
            | [] \<Rightarrow> if ip = [] then NaN else number (of_int (dec_val ip))))"

definition parseFloat :: "string \<Rightarrow> jsnum" where
  "parseFloat s =
     (case dropWhile is_space s of
        [] \<Rightarrow> NaN
      | c # r \<Rightarrow>
          if c = CHR ''+'' then unsigned_literal r
          else if c = CHR ''-'' then js_neg (unsigned_literal r)
          else unsigned_literal (c # r))"

section \<open>Time codec\<close>

text \<open>
  \<open>parseFfmpegTime\<close>: the text is split at colons; with fewer than three parts the result
  is 0, otherwise the first three parts go through \<open>parseFloat\<close> and are combined.
\<close>

definition parseFfmpegTime :: "string \<Rightarrow> jsnum" where
  "parseFfmpegTime timeStr =
     (let parts = js_split CHR '':'' timeStr
      in if length parts < 3 then Fin 0
         else
           let h = parseFloat (parts ! 0);
               m = parseFloat (parts ! 1);
               s = parseFloat (parts ! 2)
           in js_add (js_add (js_mul h (Fin 3600)) (js_mul m (Fin 60))) s)"

section \<open>Application state\<close>

text \<open>
  The component's state variables, the engine instance (its loaded flag, the installed
  log handler, its in-memory file system and the commands it was asked to run), the
  files handed to the browser for download, and the pending timers with the milliseconds
  left until each fires. The user-visible texts are constructors: the source sets fixed
  literals. Logging through \<open>addLog\<close> writes to the console only and is left out.
\<close>

type_synonym bytes = "nat list"

record jsfile =
  fname :: string
  fsize :: nat
  fcontent :: bytes

datatype ui_message =
    MsgNone        \<comment> \<open>the empty text\<close>
  | MsgProcessing  \<comment> \<open>processing (MP4 conversion, fast mode)\<close>
  | MsgReadingFile \<comment> \<open>reading the file\<close>
  | MsgEncoding    \<comment> \<open>running the encoder\<close>
  | MsgGenerating  \<comment> \<open>generating the file\<close>
  | MsgDone        \<comment> \<open>completed\<close>

datatype ui_error =
    ErrNone        \<comment> \<open>the empty text\<close>
  | ErrTooLarge    \<comment> \<open>the file is too large (1GB limit)\<close>
  | ErrExport      \<comment> \<open>an error occurred during export\<close>

text \<open>
  The three handlers the source installs with \<open>setLogger\<close>: the one of the initial
  effect, which only logs; the one of an export, a closure over the requested duration;
  and the empty one of the \<open>finally\<close> block.
\<close>

datatype logger = LogOnly | ProgressLogger jsnum | NoLogger

datatype arg = S string | N jsnum

record app =
  videoFile :: "jsfile option"
  trimRange :: "jsnum \<times> jsnum"
  progress :: jsnum
  progressRef :: jsnum
  isProcessing :: bool
  message :: ui_message
  error :: ui_error
  isSlow :: bool
  loaded :: bool
  logger :: logger
  fs :: "string \<rightharpoonup> bytes"
  runs :: "arg list list"
  downloads :: "bytes list"
  slowTimer :: "nat option"
  doneTimers :: "nat list"

subsection \<open>Stall detection\<close>

text \<open>
  The effect with dependencies \<open>[isProcessing, progress]\<close>: its body, its cleanup, and
  its re-run after a render in which a dependency changed. Every update of the state is
  rendered, and the effect has run, before the next event arrives; the updates a handler
  makes before it first awaits are one update.
\<close>

definition stall_effect :: "app \<Rightarrow> app" where
  "stall_effect s =
     (if isProcessing s \<and> progress s = Fin 0 then s\<lparr>slowTimer := Some 5000\<rparr>
      else s\<lparr>isSlow := False\<rparr>)"

definition stall_cleanup :: "app \<Rightarrow> app" where
  "stall_cleanup s = s\<lparr>slowTimer := None\<rparr>"

definition rerender :: "app \<Rightarrow> app \<Rightarrow> app" where
  "rerender old s =
     (if isProcessing s = isProcessing old \<and> progress s = progress old then s
      else stall_effect (stall_cleanup s))"

text \<open>
  Time passes: the stall timer sets the flag when it is due; a due timer of a finished
  export clears \<open>isProcessing\<close>, which re-runs the effect.
\<close>

definition elapse :: "nat \<Rightarrow> app \<Rightarrow> app" where
  "elapse t s =
     (let s1 = (case slowTimer s of
                  None \<Rightarrow> s
                | Some r \<Rightarrow> if r \<le> t then s\<lparr>isSlow := True, slowTimer := None\<rparr>
                            else s\<lparr>slowTimer := Some (r - t)\<rparr>);
          s2 = s1\<lparr>doneTimers := map (\<lambda>d. d - t) (filter (\<lambda>d. t < d) (doneTimers s))\<rparr>
      in if filter (\<lambda>d. d \<le> t) (doneTimers s) \<noteq> []
         then rerender s2 (s2\<lparr>isProcessing := False\<rparr>) else s2)"

subsection \<open>File selection\<close>

definition handleFileChange :: "jsfile option \<Rightarrow> app \<Rightarrow> app" where
  "handleFileChange file s =
     (case file of
        None \<Rightarrow> s
      | Some f \<Rightarrow>
          if fsize f > 1024 * 1024 * 1024 then s\<lparr>error := ErrTooLarge\<rparr>
          else s\<lparr>error := ErrNone, videoFile := Some f, trimRange := (Fin 0, Fin 10)\<rparr>)"

subsection \<open>The progress handler\<close>

text \<open>
  The pattern \<open>time=(\d{2}:\d{2}:\d{2}\.\d+)\<close> at the start of a text, giving the
  captured group, and its leftmost match in a line.
\<close>

fun match_time_at :: "string \<Rightarrow> string option" where
  "match_time_at (t # i # m # e # q # a # b # p1 # c # d # p2 # g # h # dot # r) =
     (if [t, i, m, e, q] = ''time='' \<and> is_digit a \<and> is_digit b \<and> p1 = CHR '':''
         \<and> is_digit c \<and> is_digit d \<and> p2 = CHR '':'' \<and> is_digit g \<and> is_digit h
         \<and> dot = CHR ''.'' \<and> takeWhile is_digit r \<noteq> []
      then Some ([a, b, p1, c, d, p2, g, h, dot] @ takeWhile is_digit r)
      else None)"
| "match_time_at _ = None"

fun match_time :: "string \<Rightarrow> string option" where
  "match_time [] = None"
| "match_time (x # xs) =
     (case match_time_at (x # xs) of Some ts \<Rightarrow> Some ts | None \<Rightarrow> match_time xs)"

definition percent :: "jsnum \<Rightarrow> jsnum \<Rightarrow> jsnum" where
  "percent currentTime durationTime =
     math_min (math_round (js_mul (js_div currentTime durationTime) (Fin 100))) (Fin 100)"

text \<open>The value the handler of an export publishes for a log line, if it publishes one.\<close>

definition progress_of_line :: "jsnum \<Rightarrow> string \<Rightarrow> jsnum option" where
  "progress_of_line durationTime msg =
     (if includes_str msg ''time='' then
        (case match_time msg of
           Some ts \<Rightarrow>
             if ts \<noteq> [] then Some (percent (parseFfmpegTime ts) durationTime) else None
         | None \<Rightarrow> None)
      else None)"

text \<open>The engine calls the installed handler with a log line.\<close>

definition deliver :: "string \<Rightarrow> app \<Rightarrow> app" where
  "deliver msg s =
     (case logger s of
        ProgressLogger durationTime \<Rightarrow>
          (case progress_of_line durationTime msg of
             Some p \<Rightarrow> rerender s (s\<lparr>progress := p, progressRef := p\<rparr>)
           | None \<Rightarrow> s)
      | _ \<Rightarrow> s)"

text \<open>The values a handler passes to \<open>setProgress\<close> over a sequence of log lines.\<close>

definition published :: "logger \<Rightarrow> string list \<Rightarrow> jsnum list" where
  "published l msgs =
     (case l of
        ProgressLogger durationTime \<Rightarrow> List.map_filter (progress_of_line durationTime) msgs
      | _ \<Rightarrow> [])"

section \<open>Export\<close>

text \<open>
  What the engine and the browser do during one export is an input of the model: the log
  lines the engine emits and the time that passes while each awaited call is pending, and
  whether the call then returns or throws. An export whose awaited call never returns has
  no script.
\<close>

datatype engine_event = Wait nat | Log string

record script =
  load_events :: "engine_event list"
  load_ok :: bool
  fetch_events :: "engine_event list"
  fetch_ok :: bool
  write_ok :: bool
  run_events :: "engine_event list"
  run_ok :: bool
  run_output :: "bytes option"

fun on_event :: "engine_event \<Rightarrow> app \<Rightarrow> app" where
  "on_event (Wait t) s = elapse t s"
| "on_event (Log msg) s = deliver msg s"

definition pending :: "engine_event list \<Rightarrow> app \<Rightarrow> app" where
  "pending evs s = foldl (\<lambda>st ev. on_event ev st) s evs"

text \<open>The safe names of the virtual file system.\<close>

definition extension :: "string \<Rightarrow> string" where
  "extension nm =
     toLowerCase
       (case rev (js_split CHR ''.'' nm) of
          [] \<Rightarrow> ''mp4''
        | p # _ \<Rightarrow> if p = [] then ''mp4'' else p)"

definition safeInputName :: "string \<Rightarrow> string" where
  "safeInputName nm = ''input_source.'' @ extension nm"

definition safeOutputName :: string where
  "safeOutputName = ''output_processed.mp4''"

definition run_args :: "string \<Rightarrow> jsnum \<Rightarrow> jsnum \<Rightarrow> arg list" where
  "run_args inputName startTime durationTime =
     [S ''-ss'', N startTime, S ''-i'', S inputName, S ''-t'', N durationTime,
      S ''-c:v'', S ''libx264'', S ''-preset'', S ''ultrafast'', S ''-pix_fmt'', S ''yuv420p'',
      S ''-c:a'', S ''aac'', S ''-movflags'', S ''+faststart'',
      S ''-avoid_negative_ts'', S ''make_zero'', S safeOutputName]"

text \<open>
  The body of the \<open>try\<close> block in four parts; \<open>Inl\<close> is the state in which an exception
  was thrown, \<open>Inr\<close> the state in which the part completed.
\<close>

definition export_prepare :: "app \<Rightarrow> app" where
  "export_prepare s =
     (let s1 = rerender s
                 (s\<lparr>isProcessing := True, message := MsgProcessing, progress := Fin 0,
                    progressRef := Fin 0, isSlow := False\<rparr>);
          durationTime = js_sub (snd (trimRange s)) (fst (trimRange s))
      in s1\<lparr>logger := ProgressLogger durationTime, message := MsgReadingFile\<rparr>)"

definition export_load :: "script \<Rightarrow> app \<Rightarrow> app + app" where
  "export_load sc s =
     (if \<not> loaded s then
        (let s1 = pending (load_events sc) s
         in if load_ok sc then Inr (s1\<lparr>loaded := True\<rparr>) else Inl s1)
      else Inr s)"

definition export_write :: "script \<Rightarrow> jsfile \<Rightarrow> app \<Rightarrow> app + app" where
  "export_write sc f s =
     (let s1 = pending (fetch_events sc) s
      in if fetch_ok sc \<and> write_ok sc
         then Inr (s1\<lparr>fs := (fs s1)(safeInputName (fname f) \<mapsto> fcontent f)\<rparr>)
         else Inl s1)"

definition run_begin :: "jsfile \<Rightarrow> app \<Rightarrow> app \<Rightarrow> app" where
  "run_begin f s0 s =
     (let startTime = fst (trimRange s0);
          durationTime = js_sub (snd (trimRange s0)) (fst (trimRange s0))
      in s\<lparr>message := MsgEncoding,
            runs := runs s @ [run_args (safeInputName (fname f)) startTime durationTime]\<rparr>)"

definition export_run :: "script \<Rightarrow> jsfile \<Rightarrow> app \<Rightarrow> app \<Rightarrow> app + app" where
  "export_run sc f s0 s =
     (let s2 = pending (run_events sc) (run_begin f s0 s)
      in if run_ok sc
         then Inr (case run_output sc of
                     None \<Rightarrow> s2
                   | Some out \<Rightarrow> s2\<lparr>fs := (fs s2)(safeOutputName \<mapsto> out)\<rparr>)
         else Inl s2)"

text \<open>
  \<open>unlink\<close> throws on a missing file, and both calls share one \<open>try\<close> whose \<open>catch\<close> is
  empty: when the first throws the second is skipped. The name of the download is not
  part of the model.
\<close>

definition export_cleanup :: "jsfile \<Rightarrow> app \<Rightarrow> app" where
  "export_cleanup f s =
     (if fs s (safeInputName (fname f)) = None then s
      else
        let s1 = s\<lparr>fs := (fs s)(safeInputName (fname f) := None)\<rparr>
        in if fs s1 safeOutputName = None then s1
           else s1\<lparr>fs := (fs s1)(safeOutputName := None)\<rparr>)"

definition export_finish :: "jsfile \<Rightarrow> app \<Rightarrow> app + app" where
  "export_finish f s =
     (let s1 = s\<lparr>message := MsgGenerating\<rparr>
      in (case fs s1 safeOutputName of
            None \<Rightarrow> Inl s1
          | Some data \<Rightarrow>
              let s2 = export_cleanup f (s1\<lparr>downloads := downloads s1 @ [data]\<rparr>)
              in Inr (rerender s2 (s2\<lparr>message := MsgDone, progress := Fin 100\<rparr>))))"

definition and_then :: "app + app \<Rightarrow> (app \<Rightarrow> app + app) \<Rightarrow> app + app" where
  "and_then r k = (case r of Inl s \<Rightarrow> Inl s | Inr s \<Rightarrow> k s)"

definition export_try :: "script \<Rightarrow> jsfile \<Rightarrow> app \<Rightarrow> app + app" where
  "export_try sc f s =
     and_then (and_then (and_then (export_load sc (export_prepare s))
       (export_write sc f)) (export_run sc f s)) (export_finish f)"

definition export_catch :: "app \<Rightarrow> app" where
  "export_catch s = s\<lparr>error := ErrExport, message := MsgNone\<rparr>"

definition export_finally :: "app \<Rightarrow> app" where
  "export_finally s = s\<lparr>logger := NoLogger, doneTimers := doneTimers s @ [1000]\<rparr>"

definition handleExport :: "script \<Rightarrow> app \<Rightarrow> app" where
  "handleExport sc s =
     (case videoFile s of
        None \<Rightarrow> s
      | Some f \<Rightarrow>
          export_finally
            (case export_try sc f s of Inl s1 \<Rightarrow> export_catch s1 | Inr s1 \<Rightarrow> s1))"

section \<open>Notions used to state the properties\<close>

text \<open>The comparison \<open>a <= b\<close> of JavaScript: false whenever a side is NaN.\<close>

fun js_le :: "jsnum \<Rightarrow> jsnum \<Rightarrow> bool" where
  "js_le NaN _ = False"
| "js_le _ NaN = False"
| "js_le NInf _ = True"
| "js_le _ PInf = True"
| "js_le (Fin x) (Fin y) = (x \<le> y)"
| "js_le _ _ = False"

text \<open>The timestamp the progress handler reads from a log line, if the line has one.\<close>

definition line_time :: "string \<Rightarrow> jsnum option" where
  "line_time msg =
     (if includes_str msg ''time='' then
        (case match_time msg of
           Some ts \<Rightarrow> if ts \<noteq> [] then Some (parseFfmpegTime ts) else None
         | None \<Rightarrow> None)
      else None)"

text \<open>
  The progress of the specification: the ratio of the timestamp to the requested duration
  as a percentage, clamped to \<open>[0, 100]\<close>, rounded to the nearest integer.
\<close>

definition spec_progress :: "rat \<Rightarrow> rat \<Rightarrow> rat" where
  "spec_progress t d = of_int \<lfloor>max 0 (min 100 (t / d * 100)) + 1 / 2\<rfloor>"

text \<open>The states an awaited call passes through, and the time that passes during it.\<close>

fun trace :: "engine_event list \<Rightarrow> app \<Rightarrow> app list" where
  "trace [] s = [s]"
| "trace (ev # evs) s = s # trace evs (on_event ev s)"

fun wait_of :: "engine_event \<Rightarrow> nat" where
  "wait_of (Wait t) = t"
| "wait_of (Log msg) = 0"

definition total_wait :: "engine_event list \<Rightarrow> nat" where
  "total_wait evs = sum_list (map wait_of evs)"

text \<open>Two states that differ at most in the stall flag.\<close>

definition same_but_slow :: "app \<Rightarrow> app \<Rightarrow> bool" where
  "same_but_slow s t = (s\<lparr>isSlow := False\<rparr> = t\<lparr>isSlow := False\<rparr>)"

text \<open>Setting the selected file in the state an export ended in, thrown or completed.\<close>

abbreviation set_vf :: "jsfile option \<Rightarrow> app + app \<Rightarrow> app + app" where
  "set_vf v \<equiv> map_sum (\<lambda>s. s\<lparr>videoFile := v\<rparr>) (\<lambda>s. s\<lparr>videoFile := v\<rparr>)"

text \<open>
  What holds of the stall timer all through an export that began in a state in which
  none was in progress: the export is marked as in progress and no timer of an earlier
  export is pending; while the progress is 0 the flag is set or the stall timer is pending
  with at most five seconds to go; while the progress is not 0 the flag is clear and no
  stall timer is pending.
\<close>

definition job_inv :: "app \<Rightarrow> bool" where
  "job_inv s =
     (isProcessing s \<and> doneTimers s = []
      \<and> (if progress s = Fin 0
          then isSlow s \<or> (case slowTimer s of Some r \<Rightarrow> 0 < r \<and> r \<le> 5000 | None \<Rightarrow> False)
          else \<not> isSlow s \<and> slowTimer s = None))"

abbreviation sbs_sum :: "app + app \<Rightarrow> app + app \<Rightarrow> bool" where
  "sbs_sum \<equiv> rel_sum same_but_slow same_but_slow"

subsection \<open>Concrete states and scripts\<close>

text \<open>
  The state of the component after the engine has loaded, with no file selected; the same
  with a file of a given name and size; an export in which every call succeeds at once,
  and one in which the run throws.
\<close>

definition initial_app :: app where
  "initial_app =
     \<lparr>videoFile = None, trimRange = (Fin 0, Fin 10), progress = Fin 0, progressRef = Fin 0,
      isProcessing = False, message = MsgNone, error = ErrNone, isSlow = False,
      loaded = True, logger = LogOnly, fs = Map.empty, runs = [], downloads = [],
      slowTimer = None, doneTimers = []\<rparr>"

definition sample_file :: "string \<Rightarrow> nat \<Rightarrow> jsfile" where
  "sample_file nm n = \<lparr>fname = nm, fsize = n, fcontent = [1, 2, 3]\<rparr>"

definition with_file :: "string \<Rightarrow> nat \<Rightarrow> app" where
  "with_file nm n = initial_app\<lparr>videoFile := Some (sample_file nm n)\<rparr>"

definition plain_script :: script where
  "plain_script =
     \<lparr>load_events = [], load_ok = True, fetch_events = [], fetch_ok = True, write_ok = True,
      run_events = [], run_ok = True, run_output = Some [0]\<rparr>"

definition failing_run :: script where
  "failing_run = plain_script\<lparr>run_ok := False, run_output := None\<rparr>"

text \<open>An export during whose run six seconds pass with no log line.\<close>

definition stalling_run :: script where
  "stalling_run = plain_script\<lparr>run_events := [Wait 6000]\<rparr>"

text \<open>
  A state in the middle of an export of ten seconds, and log lines whose timestamps go
  back and go forward.
\<close>

definition encoding_app :: app where
  "encoding_app =
     (with_file ''a.mp4'' 3)
       \<lparr>isProcessing := True, message := MsgEncoding, logger := ProgressLogger (Fin 10),
        slowTimer := Some 5000\<rparr>"

text \<open>
  The state of an export of \<open>a.mp4\<close> once the input is written, and a state in which
  the stall flag is set.
\<close>

definition written_app :: app where
  "written_app =
     (with_file ''a.mp4'' 3)
       \<lparr>isProcessing := True, message := MsgReadingFile, logger := ProgressLogger (Fin 10),
        fs := [''input_source.mp4'' \<mapsto> [1, 2, 3]], slowTimer := Some 5000\<rparr>"

definition slow_app :: app where
  "slow_app = encoding_app\<lparr>isSlow := True\<rparr>"

definition regressing_lines :: "string list" where
  "regressing_lines = [''frame=  10 time=00:00:05.00 bitrate=1'', ''time=00:00:02.00'']"

definition advancing_lines :: "string list" where
  "advancing_lines = [''time=00:00:02.00 '', ''no timestamp'', ''size=1 time=00:00:05.00'']"

section \<open>Rounding\<close>

lemma ilog2_bounds:
  assumes "0 < x"
  shows "2 powi (ilog2 x) \<le> x \<and> x < 2 powi (ilog2 x + 1)"
proof (cases "1 \<le> x")
  case True
  let ?n = "\<lfloor>x\<rfloor>"
  have n: "0 < ?n" using True by simp
  have b: "1 \<le> bitlen ?n" using n by (simp add: bitlen_alt_def)
  have e: "ilog2 x = bitlen ?n - 1" using True by (simp add: ilog2_def)
  have lo: "(2::int) ^ nat (bitlen ?n - 1) \<le> ?n" and hi: "?n < 2 ^ nat (bitlen ?n)"
    using bitlen_bounds [OF n] by simp_all
  have "(2::rat) ^ nat (bitlen ?n - 1) = of_int (2 ^ nat (bitlen ?n - 1))" by simp
  also have "\<dots> \<le> of_int ?n" using lo by (simp only: of_int_le_iff)
  also have "\<dots> \<le> x" by simp
  finally have 1: "2 powi (ilog2 x) \<le> x" using b by (simp add: e power_int_def)
  have "?n + 1 \<le> 2 ^ nat (bitlen ?n)" using hi by simp
  then have "of_int (?n + 1) \<le> (of_int (2 ^ nat (bitlen ?n)) :: rat)"
    by (simp only: of_int_le_iff)
  moreover have "x < of_int (?n + 1)" by linarith
  ultimately have "x < (2::rat) ^ nat (bitlen ?n)" by simp
  then have 2: "x < 2 powi (ilog2 x + 1)" using b by (simp add: e power_int_def)
  show ?thesis using 1 2 by simp
next
  case False
  let ?m = "\<lceil>1 / x\<rceil> - 1"
  have x1: "1 < 1 / x" using False assms by simp
  then have m: "0 < ?m" by linarith
  have e: "ilog2 x = - bitlen ?m" using False by (simp add: ilog2_def)
  have b: "1 \<le> bitlen ?m" using m by (simp add: bitlen_alt_def)
  have lo: "(2::int) ^ nat (bitlen ?m - 1) \<le> ?m" and hi: "?m < 2 ^ nat (bitlen ?m)"
    using bitlen_bounds [OF m] by simp_all
  have c: "1 / x \<le> of_int \<lceil>1 / x\<rceil>" by simp
  have "\<lceil>1 / x\<rceil> \<le> 2 ^ nat (bitlen ?m)" using hi by simp
  then have "(of_int \<lceil>1 / x\<rceil> :: rat) \<le> of_int (2 ^ nat (bitlen ?m))"
    by (simp only: of_int_le_iff)
  then have "(of_int \<lceil>1 / x\<rceil> :: rat) \<le> 2 ^ nat (bitlen ?m)" by simp
  with c have "1 / x \<le> (2::rat) ^ nat (bitlen ?m)" by (rule order_trans)
  then have "1 / 2 ^ nat (bitlen ?m) \<le> x" using assms
    by (simp add: field_simps)
  then have 1: "2 powi (ilog2 x) \<le> x" using b
    by (simp add: e power_int_def inverse_eq_divide power_one_over)
  have "of_int (2 ^ nat (bitlen ?m - 1)) \<le> (of_int ?m :: rat)" using lo by (simp only: of_int_le_iff)
  moreover have "of_int ?m < 1 / x" by linarith
  ultimately have "(2::rat) ^ nat (bitlen ?m - 1) < 1 / x" by simp
  then have "x < 1 / 2 ^ nat (bitlen ?m - 1)" using assms by (simp add: field_simps)
  moreover have "2 powi (ilog2 x + 1) = (1 :: rat) / 2 ^ nat (bitlen ?m - 1)"
  proof (cases "bitlen ?m = 1")
    case True
    then show ?thesis by (simp add: e)
  next
    case False
    then have "- bitlen ?m + 1 < 0" "nat (bitlen ?m - 1) = nat (- (- bitlen ?m + 1))" using b by simp_all
    then show ?thesis by (simp add: e power_int_def inverse_eq_divide power_one_over)
  qed
  ultimately have 2: "x < 2 powi (ilog2 x + 1)" by simp
  show ?thesis using 1 2 by simp
qed

lemma pow2_le_iff [simp]: "((2::rat) powi a \<le> 2 powi b) = (a \<le> b)"
proof
  assume "(2::rat) powi a \<le> 2 powi b"
  show "a \<le> b"
  proof (rule ccontr)
    assume "\<not> a \<le> b"
    then have "(2::rat) powi b < 2 powi a" by (intro power_int_strict_increasing) simp_all
    then show False using \<open>(2::rat) powi a \<le> 2 powi b\<close> by simp
  qed
next
  assume "a \<le> b"
  then show "(2::rat) powi a \<le> 2 powi b" by (intro power_int_increasing) simp_all
qed

lemma pow2_less_iff [simp]: "((2::rat) powi a < 2 powi b) = (a < b)"
  using pow2_le_iff [of b a] by (simp only: not_le [symmetric])

lemma ilog2_le:
  assumes "0 < x" "x \<le> 2 powi k"
  shows "ilog2 x \<le> k"
proof -
  have "(2::rat) powi (ilog2 x) \<le> 2 powi k"
    using ilog2_bounds [OF assms(1)] assms(2) by linarith
  then show ?thesis by simp
qed

lemma ilog2_mono:
  assumes "0 < x" "x \<le> y"
  shows "ilog2 x \<le> ilog2 y"
proof -
  have "0 < y" using assms by simp
  then have "(2::rat) powi (ilog2 x) < 2 powi (ilog2 y + 1)"
    using ilog2_bounds [OF assms(1)] ilog2_bounds [of y] assms(2) by linarith
  then have "ilog2 x < ilog2 y + 1" by simp
  then show ?thesis by simp
qed

lemma round_even_err: "\<bar>of_int (round_even m) - m\<bar> \<le> 1 / 2"
  unfolding round_even_def Let_def by (auto simp: abs_if) linarith+

lemma round_even_int [simp]: "round_even (of_int k) = k"
  by (simp add: round_even_def)

lemma round_even_mono:
  assumes "m \<le> n"
  shows "round_even m \<le> round_even n"
proof (cases "\<lfloor>m\<rfloor> = \<lfloor>n\<rfloor>")
  case True
  then show ?thesis using assms by (auto simp: round_even_def Let_def)
next
  case False
  then have "\<lfloor>m\<rfloor> + 1 \<le> \<lfloor>n\<rfloor>" using assms floor_mono [OF assms] by linarith
  moreover have "round_even m \<le> \<lfloor>m\<rfloor> + 1" by (simp add: round_even_def Let_def)
  moreover have "\<lfloor>n\<rfloor> \<le> round_even n" by (simp add: round_even_def Let_def)
  ultimately show ?thesis by linarith
qed

lemma round_even_nonneg: "0 \<le> m \<Longrightarrow> 0 \<le> round_even m"
  using round_even_mono [of 0 m] round_even_int [of 0] by simp

lemma round_pos_alt:
  "round_pos x = of_int (round_even (x / 2 powi (dexp x - 52))) * 2 powi (dexp x - 52)"
  by (simp add: round_pos_def Let_def)

lemma dexp_mono: "0 < x \<Longrightarrow> x \<le> y \<Longrightarrow> dexp x \<le> dexp y"
  using ilog2_mono [of x y] by (simp add: dexp_def)

lemma round_pos_nonneg: "0 < x \<Longrightarrow> 0 \<le> round_pos x"
  by (simp add: round_pos_alt round_even_nonneg)

lemma round_pos_upper:
  assumes "0 < x"
  shows "round_pos x \<le> 2 powi (dexp x + 1)"
proof -
  let ?e = "dexp x"
  let ?u = "(2::rat) powi (?e - 52)"
  have "x < 2 powi (ilog2 x + 1)" using ilog2_bounds [OF assms] by simp
  also have "\<dots> \<le> 2 powi (?e + 1)" by (simp add: dexp_def)
  finally have "x < 2 powi (?e + 1)" .
  then have "x / ?u < 2 powi (?e + 1) / ?u" by (simp add: divide_strict_right_mono)
  also have "2 powi (?e + 1) / ?u = (2::rat) powi 53"
    using power_int_diff [of "2::rat" "?e + 1" "?e - 52"] by simp
  finally have "x / ?u \<le> of_int (2 ^ 53)" by simp
  then have "round_even (x / ?u) \<le> 2 ^ 53"
    using round_even_mono [of "x / ?u" "of_int (2 ^ 53)"] by (simp only: round_even_int)
  then have "(of_int (round_even (x / ?u)) :: rat) \<le> of_int (2 ^ 53)"
    by (simp only: of_int_le_iff)
  then have "of_int (round_even (x / ?u)) * ?u \<le> of_int (2 ^ 53) * ?u"
    by (intro mult_right_mono) simp_all
  also have "of_int (2 ^ 53) * ?u = 2 powi (?e + 1)"
  proof -
    have "(2::rat) powi (53 + (?e - 52)) = 2 powi 53 * ?u" by (rule power_int_add) simp
    moreover have "53 + (?e - 52) = ?e + 1" by simp
    ultimately show ?thesis by simp
  qed
  finally show ?thesis unfolding round_pos_alt .
qed

lemma round_pos_lower:
  assumes "0 < x" "- 1022 \<le> ilog2 x"
  shows "2 powi (dexp x) \<le> round_pos x"
proof -
  let ?e = "dexp x"
  let ?u = "(2::rat) powi (?e - 52)"
  have e: "?e = ilog2 x" using assms(2) by (simp add: dexp_def)
  have "2 powi ?e \<le> x" using ilog2_bounds [OF assms(1)] e by simp
  then have "2 powi ?e / ?u \<le> x / ?u" by (simp add: divide_right_mono)
  moreover have "2 powi ?e / ?u = (2::rat) powi 52"
    using power_int_diff [of "2::rat" "?e" "?e - 52"] by simp
  ultimately have "of_int (2 ^ 52) \<le> x / ?u" by simp
  then have "2 ^ 52 \<le> round_even (x / ?u)"
    using round_even_mono [of "of_int (2 ^ 52)" "x / ?u"] by (simp only: round_even_int)
  then have "(of_int (2 ^ 52) :: rat) \<le> of_int (round_even (x / ?u))"
    by (simp only: of_int_le_iff)
  then have le: "of_int (2 ^ 52) * ?u \<le> of_int (round_even (x / ?u)) * ?u"
    by (intro mult_right_mono) simp_all
  have "(2::rat) powi (52 + (?e - 52)) = 2 powi 52 * ?u" by (rule power_int_add) simp
  moreover have "52 + (?e - 52) = ?e" by simp
  ultimately have "2 powi ?e = of_int (2 ^ 52) * ?u" by simp
  also note le
  finally show ?thesis unfolding round_pos_alt .
qed

lemma round_pos_mono:
  assumes "0 < x" "x \<le> y"
  shows "round_pos x \<le> round_pos y"
proof (cases "dexp x = dexp y")
  case True
  let ?u = "(2::rat) powi (dexp y - 52)"
  have "x / ?u \<le> y / ?u" using assms(2) by (simp add: divide_right_mono)
  then have "round_even (x / ?u) \<le> round_even (y / ?u)" by (rule round_even_mono)
  then have "(of_int (round_even (x / ?u)) :: rat) \<le> of_int (round_even (y / ?u))"
    by (simp only: of_int_le_iff)
  then have "of_int (round_even (x / ?u)) * ?u \<le> of_int (round_even (y / ?u)) * ?u"
    by (intro mult_right_mono) simp_all
  then show ?thesis by (simp add: round_pos_alt True)
next
  case False
  have y: "0 < y" using assms by simp
  have lt: "dexp x < dexp y" using False dexp_mono [OF assms] by simp
  then have "- 1022 < dexp y" by (simp add: dexp_def)
  then have "- 1022 \<le> ilog2 y" by (simp add: dexp_def)
  then have "2 powi (dexp y) \<le> round_pos y" using round_pos_lower [OF y] by simp
  moreover have "round_pos x \<le> 2 powi (dexp x + 1)" by (rule round_pos_upper [OF assms(1)])
  moreover have "(2::rat) powi (dexp x + 1) \<le> 2 powi (dexp y)" using lt by simp
  ultimately show ?thesis by linarith
qed

lemma round_pos_err:
  assumes "0 < x" "x \<le> 2 powi k" "- 1022 \<le> k"
  shows "\<bar>round_pos x - x\<bar> \<le> 2 powi (k - 53)"
proof -
  let ?e = "dexp x"
  let ?u = "(2::rat) powi (?e - 52)"
  have ek: "?e \<le> k" using ilog2_le [OF assms(1,2)] assms(3) by (simp add: dexp_def)
  have "round_pos x - x = (of_int (round_even (x / ?u)) - x / ?u) * ?u"
    by (simp add: round_pos_alt algebra_simps)
  then have "\<bar>round_pos x - x\<bar> = \<bar>of_int (round_even (x / ?u)) - x / ?u\<bar> * ?u"
    by (simp add: abs_mult)
  also have "\<dots> \<le> 1 / 2 * ?u"
    by (intro mult_right_mono round_even_err) simp
  also have "1 / 2 * ?u = 2 powi (?e - 53)"
    using power_int_add [of "2::rat" "- 1" "?e - 52"] by simp
  also have "\<dots> \<le> 2 powi (k - 53)" using ek by simp
  finally show ?thesis .
qed

lemma number_nonneg:
  assumes "0 \<le> x"
  shows "number x = PInf \<or> (\<exists>r. number x = Fin r \<and> 0 \<le> r)"
proof (cases "x = 0")
  case True
  then show ?thesis by (simp add: number_def)
next
  case False
  then have "0 < x" using assms by simp
  then show ?thesis using round_pos_nonneg [of x]
    by (simp add: number_def Let_def sgn_inf_def)
qed

lemma number_mono:
  assumes "0 \<le> x" "x \<le> y"
  shows "js_le (number x) (number y)"
proof (cases "x = 0")
  case True
  have "0 \<le> y" using assms by simp
  then show ?thesis using number_nonneg [of y] True by (auto simp: number_def)
next
  case False
  then have x: "0 < x" and y: "0 < y" using assms by simp_all
  have "round_pos x \<le> round_pos y" using x assms(2) by (rule round_pos_mono)
  then show ?thesis using x y by (simp add: number_def Let_def sgn_inf_def)
qed

lemma number_err:
  assumes "0 \<le> x" "x \<le> 2 powi k" "- 1022 \<le> k" "number x = Fin r"
  shows "\<bar>r - x\<bar> \<le> 2 powi (k - 53)"
proof (cases "x = 0")
  case True
  then show ?thesis using assms(4) by (simp add: number_def)
next
  case False
  then have x: "0 < x" using assms(1) by simp
  then have "r = round_pos x" using assms(4)
    by (simp add: number_def Let_def sgn_inf_def split: if_splits)
  then show ?thesis using round_pos_err [OF x assms(2,3)] by simp
qed

lemma floor_rat_numeral [simp]:
  "\<lfloor>numeral a / numeral b :: rat\<rfloor> = numeral a div numeral b"
  using floor_divide_of_int_eq [of "numeral a" "numeral b", where ?'a = rat] by simp

lemma ceiling_rat_numeral [simp]:
  "\<lceil>numeral a / numeral b :: rat\<rceil> = - (- numeral a div numeral b)"
  using ceiling_divide_eq_div [of "numeral a" "numeral b", where ?'a = rat] by simp

lemmas num_eval = number_def round_pos_def dexp_def ilog2_def round_even_def compute_bitlen
  Let_def sgn_inf_def

lemma number_0 [simp]: "number 0 = Fin 0"
  by (simp add: number_def)

lemma number_consts:
  "number 1 = Fin 1" "number 2 = Fin 2" "number 10 = Fin 10" "number 100 = Fin 100"
  "number 200 = Fin 200" "number 128 = Fin 128"
  by (simp_all add: num_eval)

text \<open>An integer below \<open>2 ^ 53\<close> is a number.\<close>

lemma number_of_int:
  assumes "0 \<le> n" "n < 2 ^ 53"
  shows "number (of_int n) = Fin (of_int n)"
proof (cases "n = 0")
  case True
  then show ?thesis by simp
next
  case False
  let ?x = "of_int n :: rat"
  have x: "0 < ?x" "1 \<le> ?x" using assms(1) False by simp_all
  have "?x < of_int (2 ^ 53)" using assms(2) by (simp only: of_int_less_iff)
  then have lt: "?x < 2 powi 53" by simp
  have "2 powi (ilog2 ?x) \<le> ?x" using ilog2_bounds [OF x(1)] by simp
  then have "(2::rat) powi (ilog2 ?x) < 2 powi 53" using lt by linarith
  then have e1: "ilog2 ?x < 53" by (simp only: pow2_less_iff)
  have "(2::rat) powi 0 \<le> ?x" using x(2) by simp
  then have "(2::rat) powi 0 < 2 powi (ilog2 ?x + 1)" using ilog2_bounds [OF x(1)] by linarith
  then have "0 < ilog2 ?x + 1" by (simp only: pow2_less_iff)
  then have e0: "0 \<le> ilog2 ?x" by simp
  have d: "dexp ?x = ilog2 ?x" using e0 by (simp add: dexp_def)
  let ?k = "nat (52 - ilog2 ?x)"
  have u: "(2::rat) powi (dexp ?x - 52) = 1 / 2 ^ ?k"
  proof -
    have h: "dexp ?x - 52 = - int ?k" using e1 d by simp
    have "(2::rat) powi (- int ?k) = 1 / 2 ^ ?k"
      by (simp only: power_int_minus power_int_of_nat inverse_eq_divide)
    then show ?thesis by (simp only: h)
  qed
  have "?x / 2 powi (dexp ?x - 52) = of_int (n * 2 ^ ?k)" by (simp add: u)
  then have "round_even (?x / 2 powi (dexp ?x - 52)) = n * 2 ^ ?k"
    by (simp only: round_even_int)
  then have r: "round_pos ?x = ?x" by (simp add: round_pos_alt u)
  have "(2::rat) powi 53 \<le> 2 powi 1024" by (simp only: pow2_le_iff)
  then have "\<not> (2::rat) ^ 1024 \<le> ?x" using lt by simp
  then show ?thesis using x(1) r by (simp add: number_def Let_def)
qed

lemma number_below:
  assumes "0 \<le> x" "x \<le> b" "number b = Fin b"
  shows "\<exists>r. number x = Fin r \<and> 0 \<le> r \<and> r \<le> b"
  using number_nonneg [OF assms(1)] number_mono [OF assms(1,2)] assms(3) by auto

lemma number_above:
  assumes "0 \<le> b" "b \<le> x" "number b = Fin b"
  shows "number x = PInf \<or> (\<exists>r. number x = Fin r \<and> b \<le> r)"
proof -
  have "0 \<le> x" using assms by simp
  then show ?thesis using number_nonneg [of x] number_mono [OF assms(1,2)] assms(3) by auto
qed

section \<open>The time codec\<close>

lemma js_split_nosep: "c \<notin> set xs \<Longrightarrow> js_split c xs = [xs]"
  by (induction xs) auto

lemma js_split_append: "c \<notin> set xs \<Longrightarrow> js_split c (xs @ c # ys) = xs # js_split c ys"
  by (induction xs) auto

lemma js_split_nonempty: "js_split c xs \<noteq> []"
  by (induction xs) (auto split: list.splits)

lemma digit_not_special:
  "is_digit x \<Longrightarrow> x \<noteq> CHR '':'' \<and> x \<noteq> CHR ''.'' \<and> x \<noteq> CHR ''+'' \<and> x \<noteq> CHR ''-''
     \<and> x \<noteq> CHR ''I'' \<and> \<not> is_space x"
  by (auto simp: is_digit_def is_space_def)

lemma dot_not_digit: "\<not> is_digit CHR ''.''"
  by (simp add: is_digit_def)

lemma digits_no_colon: "\<forall>c \<in> set ds. is_digit c \<Longrightarrow> CHR '':'' \<notin> set ds"
  using digit_not_special by blast

lemma digit_val_bounds: "is_digit c \<Longrightarrow> 0 \<le> digit_val c \<and> digit_val c \<le> 9"
proof -
  have "(of_char c :: int) = int (of_char c)" by (simp add: of_char_def)
  then show "is_digit c \<Longrightarrow> 0 \<le> digit_val c \<and> digit_val c \<le> 9"
    by (simp add: is_digit_def digit_val_def Let_def)
qed

lemma dec_val_snoc: "dec_val (ds @ [c]) = 10 * dec_val ds + digit_val c"
  by (simp add: dec_val_def)

lemma dec_val_bounds:
  "\<forall>c \<in> set ds. is_digit c \<Longrightarrow> 0 \<le> dec_val ds \<and> dec_val ds < 10 ^ length ds"
proof (induction ds rule: rev_induct)
  case Nil
  then show ?case by (simp add: dec_val_def)
next
  case (snoc c ds)
  then have "0 \<le> dec_val ds" "dec_val ds < 10 ^ length ds" by simp_all
  moreover have "0 \<le> digit_val c" "digit_val c \<le> 9"
    using snoc.prems digit_val_bounds by simp_all
  ultimately show ?case by (simp add: dec_val_snoc)
qed

lemma unsigned_digits:
  assumes "ds \<noteq> []" "\<forall>c \<in> set ds. is_digit c"
  shows "unsigned_literal ds = number (of_int (dec_val ds))"
proof -
  obtain d r where ds: "ds = d # r" using assms(1) by (cases ds) auto
  have "is_digit d" using assms(2) ds by simp
  then have a: "\<not> starts_with ''Infinity'' ds" using ds digit_not_special by auto
  have b: "takeWhile is_digit ds = ds" "dropWhile is_digit ds = []"
    using assms(2) by (simp_all add: takeWhile_eq_all_conv)
  show ?thesis using assms(1) by (simp add: unsigned_literal_def a b)
qed

lemma unsigned_digits_frac:
  assumes "ds \<noteq> []" "\<forall>c \<in> set ds. is_digit c" "\<forall>c \<in> set fr. is_digit c"
  shows "unsigned_literal (ds @ CHR ''.'' # fr)
           = number (of_int (dec_val ds) + of_int (dec_val fr) / 10 ^ length fr)"
proof -
  obtain d r where ds: "ds = d # r" using assms(1) by (cases ds) auto
  have "is_digit d" using assms(2) ds by simp
  then have a: "\<not> starts_with ''Infinity'' (ds @ CHR ''.'' # fr)"
    using ds digit_not_special by auto
  have b: "takeWhile is_digit (ds @ CHR ''.'' # fr) = ds"
    using assms(2) dot_not_digit by (simp add: takeWhile_append2)
  have c: "dropWhile is_digit (ds @ CHR ''.'' # fr) = CHR ''.'' # fr"
    using assms(2) dot_not_digit by (simp add: dropWhile_append2)
  have d: "takeWhile is_digit fr = fr" "dropWhile is_digit fr = []"
    using assms(3) by (simp_all add: takeWhile_eq_all_conv)
  show ?thesis using assms(1)
    by (simp add: unsigned_literal_def a b c d exponent_part_def scale10_def)
qed

lemma parseFloat_unsigned:
  assumes "is_digit d"
  shows "parseFloat (d # r) = unsigned_literal (d # r)"
  using digit_not_special [OF assms] by (simp add: parseFloat_def)

lemma parseFloat_digits:
  assumes "ds \<noteq> []" "\<forall>c \<in> set ds. is_digit c"
  shows "parseFloat ds = number (of_int (dec_val ds))"
proof -
  obtain d r where ds: "ds = d # r" using assms(1) by (cases ds) auto
  then have "parseFloat ds = unsigned_literal ds"
    using assms(2) parseFloat_unsigned by simp
  then show ?thesis using unsigned_digits [OF assms] by simp
qed

lemma parseFloat_digits_frac:
  assumes "ds \<noteq> []" "\<forall>c \<in> set ds. is_digit c" "\<forall>c \<in> set fr. is_digit c"
  shows "parseFloat (ds @ CHR ''.'' # fr)
           = number (of_int (dec_val ds) + of_int (dec_val fr) / 10 ^ length fr)"
proof -
  obtain d r where ds: "ds = d # r" using assms(1) by (cases ds) auto
  then have "parseFloat (ds @ CHR ''.'' # fr) = unsigned_literal (ds @ CHR ''.'' # fr)"
    using assms(2) parseFloat_unsigned by simp
  then show ?thesis using unsigned_digits_frac [OF assms] by simp
qed

lemma parseFfmpegTime_digits:
  assumes "hh \<noteq> []" "mm \<noteq> []" "ss \<noteq> []"
    and "\<forall>c \<in> set hh. is_digit c" "\<forall>c \<in> set mm. is_digit c"
    and "\<forall>c \<in> set ss. is_digit c" "\<forall>c \<in> set ff. is_digit c"
  shows "parseFfmpegTime (hh @ CHR '':'' # mm @ CHR '':'' # ss @ CHR ''.'' # ff)
           = js_add (js_add (js_mul (number (of_int (dec_val hh))) (Fin 3600))
                            (js_mul (number (of_int (dec_val mm))) (Fin 60)))
                    (number (of_int (dec_val ss) + of_int (dec_val ff) / 10 ^ length ff))"
proof -
  have "CHR '':'' \<notin> set (ss @ CHR ''.'' # ff)"
    using digits_no_colon assms(6,7) by auto
  then have "js_split CHR '':'' (hh @ CHR '':'' # mm @ CHR '':'' # ss @ CHR ''.'' # ff)
               = [hh, mm, ss @ CHR ''.'' # ff]"
    using digits_no_colon assms(4,5) by (simp add: js_split_append js_split_nosep)
  then show ?thesis
    using parseFloat_digits [OF assms(1,4)] parseFloat_digits [OF assms(2,5)]
      parseFloat_digits_frac [OF assms(3,6,7)]
    by (simp add: parseFfmpegTime_def)
qed

text \<open>
  Fields of at most two digits: the hours and minutes are converted exactly, the seconds
  with their fraction and the sum are each rounded once.
\<close>

lemma two_digits:
  assumes "length ds \<le> 2" "\<forall>c \<in> set ds. is_digit c"
  shows "0 \<le> dec_val ds \<and> dec_val ds \<le> 99"
proof -
  have "(10::int) ^ length ds \<le> 10 ^ 2" using assms(1) by (intro power_increasing) simp_all
  then show ?thesis using dec_val_bounds [OF assms(2)] by simp
qed

lemma field_times:
  assumes "0 \<le> n" "n \<le> 99" "0 \<le> k" "k \<le> 3600"
  shows "js_mul (number (of_int n)) (Fin (of_int k)) = Fin (of_int (n * k))"
proof -
  have "n * k \<le> 99 * 3600" using assms by (intro mult_mono) simp_all
  then have "number (of_int (n * k)) = Fin (of_int (n * k))"
    using assms by (intro number_of_int) simp_all
  moreover have "number (of_int n) = Fin (of_int n)"
    using assms by (intro number_of_int) simp_all
  ultimately show ?thesis by simp
qed

lemma seconds_rounded:
  assumes "0 \<le> s" "s \<le> 99" "0 \<le> f" "f < 10 ^ k"
  shows "\<exists>r. number (of_int s + of_int f / 10 ^ k) = Fin r \<and> 0 \<le> r \<and> r \<le> 128
           \<and> \<bar>r - (of_int s + of_int f / 10 ^ k)\<bar> \<le> 2 powi (- 46)"
proof -
  let ?x = "of_int s + of_int f / 10 ^ k :: rat"
  have "(of_int f :: rat) < of_int (10 ^ k)" using assms(4) by (simp only: of_int_less_iff)
  then have f1: "(of_int f :: rat) / 10 ^ k < 1" by simp
  have f0: "0 \<le> (of_int f :: rat) / 10 ^ k" using assms(3) by simp
  have "(of_int s :: rat) \<le> 99" "0 \<le> (of_int s :: rat)" using assms(1,2) by simp_all
  then have x: "0 \<le> ?x" "?x \<le> 128" using f0 f1 by linarith+
  obtain r where r: "number ?x = Fin r" "0 \<le> r" "r \<le> 128"
    using number_below [OF x number_consts(6)] by blast
  have "?x \<le> 2 powi 7" using x(2) by simp
  then have "\<bar>r - ?x\<bar> \<le> 2 powi (7 - 53)"
    using x(1) r(1) by (intro number_err) simp_all
  then show ?thesis using r by simp
qed

lemma parseFfmpegTime_two_digits:
  assumes "hh \<noteq> []" "mm \<noteq> []" "ss \<noteq> []"
    and "\<forall>c \<in> set hh. is_digit c" "\<forall>c \<in> set mm. is_digit c"
    and "\<forall>c \<in> set ss. is_digit c" "\<forall>c \<in> set ff. is_digit c"
    and "length hh \<le> 2" "length mm \<le> 2" "length ss \<le> 2"
  shows "\<exists>r. parseFfmpegTime (hh @ CHR '':'' # mm @ CHR '':'' # ss @ CHR ''.'' # ff) = Fin r
           \<and> 0 \<le> r \<and> r \<le> 2 ^ 19
           \<and> \<bar>r - (of_int (dec_val hh) * 3600 + of_int (dec_val mm) * 60
                    + (of_int (dec_val ss) + of_int (dec_val ff) / 10 ^ length ff))\<bar>
                \<le> 1 / 2 ^ 33"
proof -
  let ?h = "dec_val hh" and ?m = "dec_val mm" and ?s = "dec_val ss" and ?f = "dec_val ff"
  let ?x = "of_int ?s + of_int ?f / 10 ^ length ff :: rat"
  have h: "0 \<le> ?h" "?h \<le> 99" using two_digits assms(4,8) by simp_all
  have m: "0 \<le> ?m" "?m \<le> 99" using two_digits assms(5,9) by simp_all
  have s: "0 \<le> ?s" "?s \<le> 99" using two_digits assms(6,10) by simp_all
  have f: "0 \<le> ?f" "?f < 10 ^ length ff" using dec_val_bounds [OF assms(7)] by simp_all
  have a: "js_mul (number (of_int ?h)) (Fin 3600) = Fin (of_int (?h * 3600))"
    using field_times [OF h, of 3600] by simp
  have b: "js_mul (number (of_int ?m)) (Fin 60) = Fin (of_int (?m * 60))"
    using field_times [OF m, of 60] by simp
  let ?i = "?h * 3600 + ?m * 60"
  have i: "0 \<le> ?i" "?i \<le> 362340" using h m by simp_all
  then have "number (of_int ?i) = Fin (of_int ?i)" by (intro number_of_int) simp_all
  then have c: "js_add (Fin (of_int (?h * 3600))) (Fin (of_int (?m * 60))) = Fin (of_int ?i)"
    by simp
  obtain r where r: "number ?x = Fin r" "0 \<le> r" "r \<le> 128" "\<bar>r - ?x\<bar> \<le> 2 powi (- 46)"
    using seconds_rounded [OF s f] by blast
  have "(of_int ?i :: rat) \<le> of_int 362340" using i(2) by (simp only: of_int_le_iff)
  then have ir: "0 \<le> (of_int ?i :: rat)" "(of_int ?i :: rat) \<le> 362340"
    using i(1) by simp_all
  let ?y = "of_int ?i + r :: rat"
  have y: "0 \<le> ?y" "?y \<le> 524288" using ir r(2,3) by linarith+
  have n19: "number 524288 = Fin 524288" using number_of_int [of 524288] by simp
  obtain t where t: "number ?y = Fin t" "0 \<le> t" "t \<le> 524288"
    using number_below [OF y n19] by blast
  have "?y \<le> 2 powi 19" using y(2) by simp
  then have "\<bar>t - ?y\<bar> \<le> 2 powi (19 - 53)"
    using y(1) t(1) by (intro number_err) simp_all
  then have e: "\<bar>t - ?y\<bar> \<le> 2 powi (- 34)" by simp
  have "(2::rat) powi (- 46) \<le> 2 powi (- 34)" by (simp only: pow2_le_iff)
  then have "\<bar>t - (of_int ?i + ?x)\<bar> \<le> 2 powi (- 34) + 2 powi (- 34)"
    using e r(4) by linarith
  also have "(2::rat) powi (- 34) + 2 powi (- 34) = 1 / 2 ^ 33"
    by (simp add: power_int_minus)
  finally have err: "\<bar>t - (of_int ?h * 3600 + of_int ?m * 60 + ?x)\<bar> \<le> 1 / 2 ^ 33"
    by simp
  have "parseFfmpegTime (hh @ CHR '':'' # mm @ CHR '':'' # ss @ CHR ''.'' # ff) = Fin t"
    unfolding parseFfmpegTime_digits [OF assms(1-7)] a b c r(1) using t(1) by simp
  then show ?thesis using t(2,3) err by simp
qed

lemma nan_absorbs:
  "js_add NaN b = NaN" "js_add a NaN = NaN" "js_mul NaN b = NaN" "js_mul a NaN = NaN"
  by (cases a; simp)+

lemmas parse_defs = parseFfmpegTime_def parseFloat_def unsigned_literal_def is_digit_def
  is_space_def dec_val_def digit_val_def exponent_part_def scale10_def

text \<open>
  Claim C7. \<open>parseFfmpegTime\<close> turns \<open>HH:MM:SS.frac\<close> into \<open>h * 3600 + m * 60 + s\<close> seconds,
  so \<open>00:01:30.50\<close> gives 90.5; a text with fewer than three colon-separated parts gives 0,
  so \<open>garbage\<close> gives 0. The products and sums are those of JavaScript numbers; for fields
  of two digits the result differs from the exact sum by less than \<open>2 ^ - 33\<close>.
\<close>

theorem parseFfmpegTime_seconds:
  "parseFfmpegTime ''00:01:30.50'' = Fin (181 / 2)
   \<and> parseFfmpegTime ''garbage'' = Fin 0
   \<and> (length (js_split CHR '':'' t) < 3 \<longrightarrow> parseFfmpegTime t = Fin 0)
   \<and> (hh \<noteq> [] \<and> mm \<noteq> [] \<and> ss \<noteq> [] \<and> (\<forall>c \<in> set (hh @ mm @ ss @ ff). is_digit c) \<longrightarrow>
        parseFfmpegTime (hh @ CHR '':'' # mm @ CHR '':'' # ss @ CHR ''.'' # ff)
          = js_add (js_add (js_mul (parseFloat hh) (Fin 3600)) (js_mul (parseFloat mm) (Fin 60)))
              (parseFloat (ss @ CHR ''.'' # ff))
        \<and> parseFloat hh = number (of_int (dec_val hh))
        \<and> parseFloat mm = number (of_int (dec_val mm))
        \<and> parseFloat (ss @ CHR ''.'' # ff)
            = number (of_int (dec_val ss) + of_int (dec_val ff) / 10 ^ length ff)
        \<and> (length hh \<le> 2 \<and> length mm \<le> 2 \<and> length ss \<le> 2 \<longrightarrow>
             (\<exists>r. parseFfmpegTime (hh @ CHR '':'' # mm @ CHR '':'' # ss @ CHR ''.'' # ff) = Fin r
                \<and> \<bar>r - (of_int (dec_val hh) * 3600 + of_int (dec_val mm) * 60
                         + (of_int (dec_val ss) + of_int (dec_val ff) / 10 ^ length ff))\<bar>
                     \<le> 1 / 2 ^ 33)))"
proof (intro conjI impI)
  show "parseFfmpegTime ''00:01:30.50'' = Fin (181 / 2)"
    by (simp add: parse_defs num_eval)
  show "parseFfmpegTime ''garbage'' = Fin 0"
    by (simp add: parseFfmpegTime_def)
  show "parseFfmpegTime t = Fin 0" if "length (js_split CHR '':'' t) < 3"
    using that by (simp add: parseFfmpegTime_def)
next
  assume a: "hh \<noteq> [] \<and> mm \<noteq> [] \<and> ss \<noteq> [] \<and> (\<forall>c \<in> set (hh @ mm @ ss @ ff). is_digit c)"
  then have ne: "hh \<noteq> []" "mm \<noteq> []" "ss \<noteq> []"
    and dg: "\<forall>c \<in> set hh. is_digit c" "\<forall>c \<in> set mm. is_digit c"
      "\<forall>c \<in> set ss. is_digit c" "\<forall>c \<in> set ff. is_digit c"
    by auto
  show h: "parseFloat hh = number (of_int (dec_val hh))"
    using ne dg by (intro parseFloat_digits)
  show m: "parseFloat mm = number (of_int (dec_val mm))"
    using ne dg by (intro parseFloat_digits)
  show s: "parseFloat (ss @ CHR ''.'' # ff)
             = number (of_int (dec_val ss) + of_int (dec_val ff) / 10 ^ length ff)"
    using ne dg by (intro parseFloat_digits_frac)
  show "parseFfmpegTime (hh @ CHR '':'' # mm @ CHR '':'' # ss @ CHR ''.'' # ff)
          = js_add (js_add (js_mul (parseFloat hh) (Fin 3600)) (js_mul (parseFloat mm) (Fin 60)))
              (parseFloat (ss @ CHR ''.'' # ff))"
    unfolding h m s using ne dg by (intro parseFfmpegTime_digits)
  show "\<exists>r. parseFfmpegTime (hh @ CHR '':'' # mm @ CHR '':'' # ss @ CHR ''.'' # ff) = Fin r
          \<and> \<bar>r - (of_int (dec_val hh) * 3600 + of_int (dec_val mm) * 60
                   + (of_int (dec_val ss) + of_int (dec_val ff) / 10 ^ length ff))\<bar>
               \<le> 1 / 2 ^ 33"
    if "length hh \<le> 2 \<and> length mm \<le> 2 \<and> length ss \<le> 2"
    using parseFfmpegTime_two_digits [OF ne dg, of ] that by blast
qed

theorem parseFfmpegTime_seconds_witness:
  "length (js_split CHR '':'' ''12:30'') < 3 \<and> parseFfmpegTime ''12:30'' = Fin 0
   \<and> list_all is_digit (''01'' @ ''02'' @ ''03'' @ ''25'')
   \<and> parseFfmpegTime ''01:02:03.25'' = Fin (14893 / 4)
   \<and> \<bar>14893 / 4 - (1 * 3600 + 2 * 60 + (3 + 25 / 10 ^ 2)) :: rat\<bar> \<le> 1 / 2 ^ 33"
proof -
  have d: "list_all is_digit (''01'' @ ''02'' @ ''03'' @ ''25'')"
    by (simp add: is_digit_def)
  have v: "dec_val ''01'' = 1" "dec_val ''02'' = 2" "dec_val ''03'' = 3" "dec_val ''25'' = 25"
    by (simp_all add: dec_val_def digit_val_def)
  have n: "number 1 = Fin 1" "number 2 = Fin 2" "number (13 / 4) = Fin (13 / 4)"
    "number 3600 = Fin 3600" "number 120 = Fin 120" "number 3720 = Fin 3720"
    "number (14893 / 4) = Fin (14893 / 4)"
    by (simp_all add: num_eval)
  have e: "(3 + 25 / 10 ^ 2 :: rat) = 13 / 4" by simp
  show ?thesis
    using parseFfmpegTime_seconds [of "''12:30''" "''01''" "''02''" "''03''" "''25''"] d
    by (simp add: v n e list_all_iff)
qed

text \<open>
  Claim C10. There is a text with three colon-separated parts that are not numerals,
  \<open>aa:bb:cc\<close>, for which \<open>parseFfmpegTime\<close> gives NaN and not 0: the result 0 is the
  answer to fewer than three parts only, and a part that is not a number makes the
  result NaN.
\<close>

theorem parseFfmpegTime_nan:
  "3 \<le> length (js_split CHR '':'' ''aa:bb:cc'')
   \<and> parseFfmpegTime ''aa:bb:cc'' = NaN
   \<and> parseFfmpegTime ''aa:bb:cc'' \<noteq> Fin 0
   \<and> (3 \<le> length (js_split CHR '':'' t)
        \<and> (parseFloat (js_split CHR '':'' t ! 0) = NaN
             \<or> parseFloat (js_split CHR '':'' t ! 1) = NaN
             \<or> parseFloat (js_split CHR '':'' t ! 2) = NaN)
      \<longrightarrow> parseFfmpegTime t = NaN)"
proof (intro conjI impI)
  show "3 \<le> length (js_split CHR '':'' ''aa:bb:cc'')"
    by simp
  show nan: "parseFfmpegTime ''aa:bb:cc'' = NaN"
    by (simp add: parseFfmpegTime_def parseFloat_def unsigned_literal_def is_digit_def
        is_space_def)
  show "parseFfmpegTime ''aa:bb:cc'' \<noteq> Fin 0"
    by (simp add: nan)
  show "parseFfmpegTime t = NaN"
    if "3 \<le> length (js_split CHR '':'' t)
        \<and> (parseFloat (js_split CHR '':'' t ! 0) = NaN
             \<or> parseFloat (js_split CHR '':'' t ! 1) = NaN
             \<or> parseFloat (js_split CHR '':'' t ! 2) = NaN)"
    using that by (auto simp: parseFfmpegTime_def Let_def nan_absorbs)
qed

theorem parseFfmpegTime_nan_witness:
  "3 \<le> length (js_split CHR '':'' ''00:x:30'')
   \<and> parseFloat (js_split CHR '':'' ''00:x:30'' ! 1) = NaN
   \<and> parseFfmpegTime ''00:x:30'' = NaN"
  using parseFfmpegTime_nan [of "''00:x:30''"]
  by (simp add: parseFloat_def unsigned_literal_def is_digit_def is_space_def)

section \<open>File selection and file names\<close>

lemmas export_defs = handleExport_def export_try_def export_prepare_def export_load_def
  export_write_def export_run_def run_begin_def export_finish_def export_cleanup_def
  export_catch_def export_finally_def and_then_def pending_def rerender_def stall_effect_def
  stall_cleanup_def

lemmas example_defs = with_file_def sample_file_def initial_app_def plain_script_def
  failing_run_def

lemma ten_seconds: "js_sub (Fin 10) (Fin 0) = Fin 10"
  by (simp add: js_sub_def number_consts)

text \<open>
  Claim C5. At file selection a source of 1 GiB + 1 byte is rejected with the size-limit
  error and nothing else changes, the engine included; a source of exactly 1 GiB is
  accepted.
\<close>

theorem handleFileChange_limit:
  "handleFileChange (Some (f\<lparr>fsize := 1024 ^ 3 + 1\<rparr>)) s = s\<lparr>error := ErrTooLarge\<rparr>
   \<and> handleFileChange (Some (f\<lparr>fsize := 1024 ^ 3\<rparr>)) s
       = s\<lparr>error := ErrNone, videoFile := Some (f\<lparr>fsize := 1024 ^ 3\<rparr>),
           trimRange := (Fin 0, Fin 10)\<rparr>"
  by (simp add: handleFileChange_def)

text \<open>
  Claim C3 says that an export requested with no source selected fails with a typed
  error. In the state with no file the export reports no error at all.
\<close>

theorem no_source_no_failure:
  "videoFile initial_app = None
   \<and> error (handleExport plain_script initial_app) = ErrNone
   \<and> message (handleExport plain_script initial_app) = MsgNone"
  by (simp add: initial_app_def handleExport_def)

text \<open>
  Claim C3, amended. An export requested with no source selected returns at once and
  leaves the whole state as it was: no step of the pipeline runs and no error is set.
\<close>

theorem handleExport_no_source:
  "videoFile s = None \<Longrightarrow> handleExport sc s = s"
  by (simp add: handleExport_def)

theorem handleExport_no_source_witness:
  "videoFile initial_app = None \<and> handleExport failing_run initial_app = initial_app"
  using handleExport_no_source [of initial_app failing_run]
  by (simp add: initial_app_def)

text \<open>The extension of a name with a dot, and the fixed output name.\<close>

lemma js_split_last:
  "c \<notin> set ext \<Longrightarrow> js_split c (base @ c # ext) = js_split c base @ [ext]"
proof (induction base)
  case Nil
  then show ?case by (simp add: js_split_nosep)
next
  case (Cons x xs)
  then show ?case by (cases "js_split c xs") (auto simp: js_split_nonempty)
qed

lemma extension_after_last_dot:
  assumes "CHR ''.'' \<notin> set ext" "ext \<noteq> []"
  shows "safeInputName (base @ CHR ''.'' # ext) = ''input_source.'' @ toLowerCase ext"
  using assms by (simp add: safeInputName_def extension_def js_split_last)

lemma extension_weird_name:
  "safeInputName ''clip:weird name.mov'' = ''input_source.mov''
   \<and> safeOutputName = ''output_processed.mp4''"
  by (simp add: safeInputName_def extension_def toLowerCase_def lower_char_def
      safeOutputName_def)

text \<open>
  Claim C2 says that a file name without a dot gets the extension \<open>mp4\<close>. For the name
  \<open>clip:weird name\<close> the whole name is taken as the extension: the engine is given
  \<open>input_source.clip:weird name\<close>, to write the input and to run.
\<close>

theorem safeInputName_no_dot:
  "safeInputName ''clip:weird name'' = ''input_source.clip:weird name''
   \<and> runs (handleExport plain_script (with_file ''clip:weird name'' 3))
       = [run_args ''input_source.clip:weird name'' (Fin 0) (Fin 10)]
   \<and> fs (handleExport failing_run (with_file ''clip:weird name'' 3))
        ''input_source.clip:weird name'' = Some [1, 2, 3]"
proof -
  have ext: "extension ''clip:weird name'' = ''clip:weird name''"
    by (simp add: extension_def toLowerCase_def lower_char_def)
  show ?thesis
    by (simp add: safeInputName_def ext example_defs export_defs ten_seconds
        safeOutputName_def)
qed

section \<open>The size limit and the export\<close>

lemma vf_rerender:
  "rerender (old\<lparr>videoFile := v\<rparr>) (s\<lparr>videoFile := v\<rparr>) = (rerender old s)\<lparr>videoFile := v\<rparr>"
  by (simp add: rerender_def stall_effect_def stall_cleanup_def)

lemma vf_elapse: "elapse t (s\<lparr>videoFile := v\<rparr>) = (elapse t s)\<lparr>videoFile := v\<rparr>"
  by (simp add: elapse_def Let_def rerender_def stall_effect_def stall_cleanup_def
      split: option.splits)

lemma vf_deliver: "deliver msg (s\<lparr>videoFile := v\<rparr>) = (deliver msg s)\<lparr>videoFile := v\<rparr>"
  by (simp add: deliver_def rerender_def stall_effect_def stall_cleanup_def
      split: logger.splits option.splits)

lemma vf_on_event: "on_event ev (s\<lparr>videoFile := v\<rparr>) = (on_event ev s)\<lparr>videoFile := v\<rparr>"
  by (cases ev) (simp_all add: vf_elapse vf_deliver)

lemma vf_pending: "pending evs (s\<lparr>videoFile := v\<rparr>) = (pending evs s)\<lparr>videoFile := v\<rparr>"
  unfolding pending_def by (induction evs arbitrary: s) (simp_all add: vf_on_event)

lemma vf_prepare: "export_prepare (s\<lparr>videoFile := v\<rparr>) = (export_prepare s)\<lparr>videoFile := v\<rparr>"
  by (simp add: export_prepare_def rerender_def stall_effect_def stall_cleanup_def)

lemma vf_load: "export_load sc (s\<lparr>videoFile := v\<rparr>) = set_vf v (export_load sc s)"
  by (simp add: export_load_def vf_pending Let_def)

lemma vf_write: "export_write sc f (s\<lparr>videoFile := v\<rparr>) = set_vf v (export_write sc f s)"
  by (simp add: export_write_def vf_pending Let_def)

lemma vf_run_begin:
  "run_begin f (s0\<lparr>videoFile := v\<rparr>) (s\<lparr>videoFile := v\<rparr>) = (run_begin f s0 s)\<lparr>videoFile := v\<rparr>"
  by (simp add: run_begin_def)

lemma vf_run:
  "export_run sc f (s0\<lparr>videoFile := v\<rparr>) (s\<lparr>videoFile := v\<rparr>) = set_vf v (export_run sc f s0 s)"
  by (simp add: export_run_def vf_run_begin vf_pending Let_def split: option.splits)

lemma vf_finish: "export_finish f (s\<lparr>videoFile := v\<rparr>) = set_vf v (export_finish f s)"
  by (simp add: export_finish_def export_cleanup_def Let_def rerender_def stall_effect_def
      stall_cleanup_def split: option.splits)

lemma vf_and_then:
  assumes "\<And>s. k (s\<lparr>videoFile := v\<rparr>) = set_vf v (k' s)"
  shows "and_then (set_vf v r) k = set_vf v (and_then r k')"
  using assms by (cases r) (simp_all add: and_then_def)

lemma vf_try:
  "export_try sc f (s\<lparr>videoFile := v\<rparr>) = set_vf v (export_try sc f s)"
proof -
  let ?a = "export_load sc (export_prepare s)"
  let ?b = "and_then ?a (export_write sc f)"
  let ?c = "and_then ?b (export_run sc f s)"
  have a: "export_load sc (export_prepare (s\<lparr>videoFile := v\<rparr>)) = set_vf v ?a"
    by (simp add: vf_prepare vf_load)
  have b: "and_then (set_vf v ?a) (export_write sc f) = set_vf v ?b"
    by (rule vf_and_then) (rule vf_write)
  have c: "and_then (set_vf v ?b) (export_run sc f (s\<lparr>videoFile := v\<rparr>)) = set_vf v ?c"
    by (rule vf_and_then) (rule vf_run)
  have d: "and_then (set_vf v ?c) (export_finish f) = set_vf v (and_then ?c (export_finish f))"
    by (rule vf_and_then) (rule vf_finish)
  show ?thesis unfolding export_try_def a b c d ..
qed

lemma size_write: "export_write sc (f\<lparr>fsize := n\<rparr>) = export_write sc f"
  by (rule ext) (simp add: export_write_def Let_def)

lemma size_run: "export_run sc (f\<lparr>fsize := n\<rparr>) = export_run sc f"
  by (intro ext) (simp add: export_run_def run_begin_def Let_def)

lemma size_cleanup: "export_cleanup (f\<lparr>fsize := n\<rparr>) = export_cleanup f"
  by (rule ext) (simp add: export_cleanup_def)

lemma size_finish: "export_finish (f\<lparr>fsize := n\<rparr>) = export_finish f"
  unfolding export_finish_def size_cleanup ..

lemma try_size: "export_try sc (f\<lparr>fsize := n\<rparr>) s = export_try sc f s"
  by (simp add: export_try_def size_write size_run size_finish)

text \<open>
  Claim C4 says that the export checks the size of the source again before it writes the
  input. A selected source of 1 GiB + 1 byte is written to the engine's file system, and
  its export completes.
\<close>

theorem oversized_source_written:
  "fs (handleExport failing_run (with_file ''a.mp4'' (1024 ^ 3 + 1))) ''input_source.mp4''
     = Some [1, 2, 3]
   \<and> message (handleExport plain_script (with_file ''a.mp4'' (1024 ^ 3 + 1))) = MsgDone"
  by (simp add: safeInputName_def extension_def toLowerCase_def lower_char_def
      example_defs export_defs ten_seconds safeOutputName_def)

text \<open>
  Claim C4, amended. The size limit is enforced at selection only: \<open>handleFileChange\<close>
  stores a source only when its size is at most 1 GiB, and the export does not look at
  the size of the selected source, so that two sources that differ in size alone are
  exported in the same way.
\<close>

theorem size_checked_at_selection_only:
  "(videoFile (handleFileChange file s) = videoFile s
     \<or> (\<exists>f. file = Some f \<and> fsize f \<le> 1024 ^ 3
             \<and> videoFile (handleFileChange file s) = Some f))
   \<and> (handleExport sc (s\<lparr>videoFile := Some (f\<lparr>fsize := n\<rparr>)\<rparr>))\<lparr>videoFile := v\<rparr>
       = (handleExport sc (s\<lparr>videoFile := Some f\<rparr>))\<lparr>videoFile := v\<rparr>"
proof
  show "videoFile (handleFileChange file s) = videoFile s
     \<or> (\<exists>f. file = Some f \<and> fsize f \<le> 1024 ^ 3
             \<and> videoFile (handleFileChange file s) = Some f)"
    by (simp add: handleFileChange_def split: option.splits)
  show "(handleExport sc (s\<lparr>videoFile := Some (f\<lparr>fsize := n\<rparr>)\<rparr>))\<lparr>videoFile := v\<rparr>
       = (handleExport sc (s\<lparr>videoFile := Some f\<rparr>))\<lparr>videoFile := v\<rparr>"
    by (cases "export_try sc f s")
      (simp_all add: handleExport_def try_size vf_try export_catch_def export_finally_def)
qed

section \<open>The progress handler\<close>

lemma match_time_at_shape:
  assumes "match_time_at s = Some ts"
  shows "\<exists>a b c d g h fr. ts = [a, b] @ CHR '':'' # [c, d] @ CHR '':'' # [g, h] @ CHR ''.'' # fr
           \<and> is_digit a \<and> is_digit b \<and> is_digit c \<and> is_digit d \<and> is_digit g \<and> is_digit h
           \<and> (\<forall>x \<in> set fr. is_digit x) \<and> starts_with ''time='' s"
  using assms
  by (rule match_time_at.elims) (auto split: if_splits dest: set_takeWhileD)

lemma match_time_shape:
  assumes "match_time s = Some ts"
  shows "\<exists>a b c d g h fr. ts = [a, b] @ CHR '':'' # [c, d] @ CHR '':'' # [g, h] @ CHR ''.'' # fr
           \<and> is_digit a \<and> is_digit b \<and> is_digit c \<and> is_digit d \<and> is_digit g \<and> is_digit h
           \<and> (\<forall>x \<in> set fr. is_digit x)"
  using assms
proof (induction s)
  case Nil
  then show ?case by simp
next
  case (Cons x xs)
  show ?case
  proof (cases "match_time_at (x # xs)")
    case None
    then show ?thesis using Cons by simp
  next
    case (Some u)
    then have "u = ts" using Cons.prems by simp
    then show ?thesis using match_time_at_shape [OF Some] by blast
  qed
qed

lemma match_time_includes:
  assumes "match_time s = Some ts"
  shows "includes_str s ''time=''"
  using assms
proof (induction s)
  case Nil
  then show ?case by simp
next
  case (Cons x xs)
  show ?case
  proof (cases "match_time_at (x # xs)")
    case None
    then show ?thesis using Cons by simp
  next
    case (Some u)
    then show ?thesis using match_time_at_shape [OF Some] by auto
  qed
qed

lemma match_time_parse:
  assumes "match_time s = Some ts"
  shows "ts \<noteq> [] \<and> (\<exists>t. 0 \<le> t \<and> parseFfmpegTime ts = Fin t)"
proof -
  obtain a b c d g h fr where ts: "ts = [a, b] @ CHR '':'' # [c, d] @ CHR '':'' # [g, h] @ CHR ''.'' # fr"
    and dg: "is_digit a" "is_digit b" "is_digit c" "is_digit d" "is_digit g" "is_digit h"
      "\<forall>x \<in> set fr. is_digit x"
    using match_time_shape [OF assms] by blast
  have "\<exists>t. parseFfmpegTime ts = Fin t \<and> 0 \<le> t"
    unfolding ts using dg parseFfmpegTime_two_digits [of "[a, b]" "[c, d]" "[g, h]" fr]
    by auto
  then show ?thesis using ts by auto
qed

subsection \<open>The percentage\<close>

lemma percent_positive:
  "d \<noteq> 0 \<Longrightarrow>
     percent (Fin t) (Fin d)
       = math_min (math_round (js_mul (number (t / d)) (Fin 100))) (Fin 100)"
  by (simp add: percent_def)

lemma scaled_nonneg:
  assumes "a = PInf \<or> (\<exists>q. a = Fin q \<and> 0 \<le> q)"
  shows "js_mul a (Fin 100) = PInf \<or> (\<exists>p. js_mul a (Fin 100) = Fin p \<and> 0 \<le> p)"
proof -
  from assms consider "a = PInf" | q where "a = Fin q" "0 \<le> q" by blast
  then show ?thesis
  proof cases
    case 1
    then show ?thesis by (simp add: sgn_inf_def)
  next
    case 2
    have "0 \<le> q * 100" using 2(2) by simp
    then show ?thesis using number_nonneg [of "q * 100"] 2(1) by simp
  qed
qed

lemma scaled_mono:
  assumes "a = PInf \<or> (\<exists>q. a = Fin q \<and> 0 \<le> q)" "js_le a b"
  shows "js_le (js_mul a (Fin 100)) (js_mul b (Fin 100))"
proof (cases b)
  case (Fin y)
  then obtain x where x: "a = Fin x" "0 \<le> x" "x \<le> y" using assms by auto
  then have "js_le (number (x * 100)) (number (y * 100))" by (intro number_mono) simp_all
  then show ?thesis using x Fin by simp
next
  case NaN
  then show ?thesis using assms by auto
next
  case PInf
  have "js_le c PInf" if "c = PInf \<or> (\<exists>p. c = Fin p \<and> 0 \<le> p)" for c
    using that by auto
  then have "js_le (js_mul a (Fin 100)) PInf" using scaled_nonneg [OF assms(1)] by blast
  then show ?thesis using PInf by (simp add: sgn_inf_def)
next
  case NInf
  then show ?thesis using assms by auto
qed

lemma clamp_int:
  assumes "a = PInf \<or> (\<exists>p. a = Fin p \<and> 0 \<le> p)"
  shows "\<exists>k. math_min (math_round a) (Fin 100) = Fin (of_int k) \<and> 0 \<le> k \<and> k \<le> 100"
proof -
  have "\<exists>k. math_min (math_round (Fin p)) (Fin 100) = Fin (of_int k) \<and> 0 \<le> k \<and> k \<le> 100"
    if "0 \<le> p" for p
  proof -
    have "0 \<le> \<lfloor>p + 1 / 2\<rfloor>" using that by simp
    moreover have "min (of_int \<lfloor>p + 1 / 2\<rfloor>) (100 :: rat) = of_int (min \<lfloor>p + 1 / 2\<rfloor> 100)"
      by simp
    ultimately show ?thesis by (intro exI [of _ "min \<lfloor>p + 1 / 2\<rfloor> 100"]) simp
  qed
  moreover have "math_min (math_round PInf) (Fin 100) = Fin (of_int 100)" by simp
  ultimately show ?thesis using assms by auto
qed

lemma clamp_mono:
  assumes "a = PInf \<or> (\<exists>p. a = Fin p \<and> 0 \<le> p)" "js_le a b"
  shows "js_le (math_min (math_round a) (Fin 100)) (math_min (math_round b) (Fin 100))"
proof (cases b)
  case (Fin y)
  then obtain x where x: "a = Fin x" "x \<le> y" using assms by auto
  then have "\<lfloor>x + 1 / 2\<rfloor> \<le> \<lfloor>y + 1 / 2\<rfloor>" by (intro floor_mono) simp
  then have "(of_int \<lfloor>x + 1 / 2\<rfloor> :: rat) \<le> of_int \<lfloor>y + 1 / 2\<rfloor>" by (simp only: of_int_le_iff)
  then show ?thesis using x Fin by (simp add: min_def)
next
  case NaN
  then show ?thesis using assms by auto
next
  case PInf
  obtain k where "math_min (math_round a) (Fin 100) = Fin (of_int k)" "k \<le> 100"
    using clamp_int [OF assms(1)] by blast
  then show ?thesis using PInf by simp
next
  case NInf
  then show ?thesis using assms by auto
qed

lemma percent_int:
  assumes "0 \<le> t" "0 < d"
  shows "\<exists>k. percent (Fin t) (Fin d) = Fin (of_int k) \<and> 0 \<le> k \<and> k \<le> 100"
proof -
  have "0 \<le> t / d" using assms by simp
  then have "number (t / d) = PInf \<or> (\<exists>q. number (t / d) = Fin q \<and> 0 \<le> q)"
    by (rule number_nonneg)
  then show ?thesis using assms(2) by (simp add: percent_positive clamp_int scaled_nonneg)
qed

lemma percent_mono:
  assumes "0 \<le> t" "t \<le> u" "0 < d"
  shows "js_le (percent (Fin t) (Fin d)) (percent (Fin u) (Fin d))"
proof -
  have x: "0 \<le> t / d" "t / d \<le> u / d" using assms by (simp_all add: divide_right_mono)
  have a: "number (t / d) = PInf \<or> (\<exists>q. number (t / d) = Fin q \<and> 0 \<le> q)"
    using x(1) by (rule number_nonneg)
  have "js_le (number (t / d)) (number (u / d))" using x by (rule number_mono)
  then have "js_le (js_mul (number (t / d)) (Fin 100)) (js_mul (number (u / d)) (Fin 100))"
    using a by (intro scaled_mono)
  then show ?thesis using assms(3) a by (simp add: percent_positive clamp_mono scaled_nonneg)
qed

lemma percent_full:
  assumes "0 < d" "d \<le> t"
  shows "percent (Fin t) (Fin d) = Fin 100"
proof -
  have "1 \<le> t / d" using assms by simp
  then have q: "number (t / d) = PInf \<or> (\<exists>q. number (t / d) = Fin q \<and> 1 \<le> q)"
    by (intro number_above number_consts) simp
  have "math_min (math_round (js_mul (Fin q) (Fin 100))) (Fin 100) = Fin 100" if "1 \<le> q" for q
  proof -
    have "100 \<le> q * 100" using that by simp
    then have "number (q * 100) = PInf \<or> (\<exists>p. number (q * 100) = Fin p \<and> 100 \<le> p)"
      by (intro number_above number_consts) simp
    moreover have "min (of_int \<lfloor>p + 1 / 2\<rfloor>) 100 = (100 :: rat)" if "100 \<le> p" for p
    proof -
      have "100 \<le> \<lfloor>p + 1 / 2\<rfloor>" using that by (simp add: le_floor_iff)
      then have "(of_int 100 :: rat) \<le> of_int \<lfloor>p + 1 / 2\<rfloor>" by (simp only: of_int_le_iff)
      then show ?thesis by simp
    qed
    ultimately show ?thesis by auto
  qed
  moreover have "math_min (math_round (js_mul PInf (Fin 100))) (Fin 100) = Fin 100"
    by (simp add: sgn_inf_def)
  ultimately show ?thesis using q assms(1) by (auto simp: percent_positive)
qed

lemma clamp_near:
  fixes k y p e :: rat
  assumes "0 \<le> y" "\<bar>p - y\<bar> \<le> e" "k \<le> p + 1 / 2" "p + 1 / 2 < k + 1"
  shows "\<bar>min k 100 - max 0 (min 100 y)\<bar> \<le> 1 / 2 + e"
  using assms unfolding min_def max_def abs_if by (auto split: if_splits)

lemma percent_near:
  assumes "0 \<le> t" "0 < d" "percent (Fin t) (Fin d) = Fin r"
  shows "\<bar>r - max 0 (min 100 (t / d * 100))\<bar> \<le> 1 / 2 + 1 / 2 ^ 44"
proof -
  define x where "x = t / d"
  have x: "0 \<le> x" using assms by (simp add: x_def)
  have "\<bar>r - max 0 (min 100 (x * 100))\<bar> \<le> 1 / 2 + 1 / 2 ^ 44"
  proof (cases "x \<le> 2")
    case False
    then have "2 * d < t" using assms(2) by (simp add: x_def pos_divide_le_eq not_le)
    then have "d \<le> t" using assms(2) by simp
    then have "r = 100" using percent_full [OF assms(2)] assms(3) by simp
    then show ?thesis using False by simp
  next
    case True
    obtain q where q: "number x = Fin q" "0 \<le> q" "q \<le> 2"
      using number_below [OF x True number_consts(2)] by blast
    have "x \<le> 2 powi 1" using True by simp
    then have "\<bar>q - x\<bar> \<le> 2 powi (1 - 53)" using x q(1) by (intro number_err) simp_all
    then have eq: "\<bar>q - x\<bar> \<le> 1 / 2 ^ 52" by (simp add: power_int_minus inverse_eq_divide)
    have y: "0 \<le> q * 100" "q * 100 \<le> 200" using q(2,3) by simp_all
    obtain p where p: "number (q * 100) = Fin p" "0 \<le> p"
      using number_below [OF y number_consts(5)] by blast
    have "q * 100 \<le> 2 powi 8" using y(2) by simp
    then have "\<bar>p - q * 100\<bar> \<le> 2 powi (8 - 53)"
      using y(1) p(1) by (intro number_err) simp_all
    then have ep: "\<bar>p - q * 100\<bar> \<le> 1 / 2 ^ 45"
      by (simp add: power_int_minus inverse_eq_divide)
    have "\<bar>q - x\<bar> * 100 \<le> 1 / 2 ^ 52 * 100" using eq by (intro mult_right_mono) simp_all
    also have "(1 :: rat) / 2 ^ 52 * 100 \<le> 1 / 2 ^ 45" by simp
    finally have "\<bar>q - x\<bar> * 100 \<le> 1 / 2 ^ 45" .
    then have "\<bar>q * 100 - x * 100\<bar> \<le> 1 / 2 ^ 45" by (simp add: abs_if split: if_splits)
    then have "\<bar>p - x * 100\<bar> \<le> 1 / 2 ^ 45 + 1 / 2 ^ 45" using ep by linarith
    then have e: "\<bar>p - x * 100\<bar> \<le> 1 / 2 ^ 44" by simp
    let ?k = "\<lfloor>p + 1 / 2\<rfloor>"
    have k: "of_int ?k \<le> p + 1 / 2" "p + 1 / 2 < of_int ?k + 1" by linarith+
    have "percent (Fin t) (Fin d) = Fin (min (of_int ?k) 100)"
      using assms(2) q(1) p(1) by (simp add: percent_positive x_def)
    then have r: "r = min (of_int ?k) 100" using assms(3) by simp
    have "0 \<le> x * 100" using x by simp
    then show ?thesis unfolding r using e k by (rule clamp_near)
  qed
  then show ?thesis by (simp only: x_def)
qed

lemma percent_zero_duration:
  "percent (Fin t) (Fin 0) = (if t = 0 then NaN else if 0 < t then Fin 100 else NInf)"
  by (simp add: percent_def sgn_inf_def)

lemma floor_half [simp]: "\<lfloor>1 / 2 :: rat\<rfloor> = 0"
  by (simp add: floor_eq_iff)

lemma progress_of_line_match:
  assumes "match_time msg = Some ts"
  shows "progress_of_line d msg = Some (percent (parseFfmpegTime ts) d)"
  using assms match_time_includes [OF assms] match_time_parse [OF assms]
  by (simp add: progress_of_line_def)

lemma line_time_match:
  "line_time msg = (if includes_str msg ''time=''
                    then map_option parseFfmpegTime (match_time msg) else None)"
  using match_time_parse [of msg] by (auto simp: line_time_def split: option.splits)

lemma progress_of_line_time:
  "progress_of_line d msg = map_option (\<lambda>t. percent t d) (line_time msg)"
  by (simp add: progress_of_line_def line_time_def split: option.splits)

lemma line_time_fin:
  assumes "line_time msg = Some x"
  shows "\<exists>t. 0 \<le> t \<and> x = Fin t"
proof -
  obtain ts where "match_time msg = Some ts" "x = parseFfmpegTime ts"
    using assms by (auto simp: line_time_def split: if_splits option.splits)
  then show ?thesis using match_time_parse by blast
qed

lemma published_map:
  "published (ProgressLogger d) msgs = map (\<lambda>t. percent t d) (List.map_filter line_time msgs)"
  by (induction msgs) (simp_all add: published_def progress_of_line_time split: option.splits)

lemma published_sorted:
  assumes "0 < d" "sorted_wrt js_le (List.map_filter line_time msgs)"
  shows "sorted_wrt js_le (published (ProgressLogger (Fin d)) msgs)"
proof -
  let ?ts = "List.map_filter line_time msgs"
  have fin: "\<exists>t. 0 \<le> t \<and> x = Fin t" if "x \<in> set ?ts" for x
    using that line_time_fin by (auto simp: map_filter_def)
  have "js_le (percent x (Fin d)) (percent y (Fin d))"
    if mem: "x \<in> set ?ts" "y \<in> set ?ts" and le: "js_le x y" for x y
  proof -
    obtain t u where "0 \<le> t" "x = Fin t" "0 \<le> u" "y = Fin u"
      using fin mem by blast
    then show ?thesis using le assms(1) by (simp add: percent_mono)
  qed
  then have "sorted_wrt (\<lambda>x y. js_le (percent x (Fin d)) (percent y (Fin d))) ?ts"
    using assms(2) by (simp add: sorted_wrt_mono_rel [where P = js_le])
  then show ?thesis by (simp add: published_map sorted_wrt_map)
qed

lemmas eval_defs = published_def progress_of_line_def line_time_def percent_def parse_defs
  num_eval

lemma progress_rerender: "progress (rerender old s) = progress s"
  by (simp add: rerender_def stall_effect_def stall_cleanup_def)

lemma deliver_progress:
  "logger s = ProgressLogger d \<Longrightarrow>
     progress (deliver msg s) = (case progress_of_line d msg of Some p \<Rightarrow> p | None \<Rightarrow> progress s)"
  by (simp add: deliver_def progress_rerender split: option.splits)

lemma sample_times:
  "parseFfmpegTime ''00:00:00.00'' = Fin 0"
  "parseFfmpegTime ''00:00:02.00'' = Fin 2"
  "parseFfmpegTime ''00:00:05.00'' = Fin 5"
  "parseFfmpegTime ''00:00:25.00'' = Fin 25"
  by (simp_all add: parse_defs num_eval)

lemma sample_matches:
  "match_time ''frame=  10 time=00:00:05.00 bitrate=1'' = Some ''00:00:05.00''"
  "match_time ''time=00:00:00.00'' = Some ''00:00:00.00''"
  "match_time ''time=00:00:02.00'' = Some ''00:00:02.00''"
  "match_time ''time=00:00:05.00'' = Some ''00:00:05.00''"
  "match_time ''time=00:00:25.00'' = Some ''00:00:25.00''"
  "match_time ''time=00:00:02.00 '' = Some ''00:00:02.00''"
  "match_time ''size=1 time=00:00:05.00'' = Some ''00:00:05.00''"
  "match_time ''no timestamp'' = None"
  by (simp_all add: is_digit_def)

lemma sample_percents:
  "percent (Fin 0) (Fin 10) = Fin 0"
  "percent (Fin 2) (Fin 10) = Fin 20"
  "percent (Fin 5) (Fin 10) = Fin 50"
  "percent (Fin 25) (Fin 10) = Fin 100"
  by (simp_all add: percent_def num_eval)

lemma sample_progress:
  "progress_of_line (Fin 10) ''frame=  10 time=00:00:05.00 bitrate=1'' = Some (Fin 50)"
  "progress_of_line (Fin 10) ''time=00:00:00.00'' = Some (Fin 0)"
  "progress_of_line (Fin 10) ''time=00:00:02.00'' = Some (Fin 20)"
  "progress_of_line (Fin 10) ''time=00:00:05.00'' = Some (Fin 50)"
  "progress_of_line (Fin 10) ''time=00:00:25.00'' = Some (Fin 100)"
  by (simp_all only: progress_of_line_match [OF sample_matches(1)]
      progress_of_line_match [OF sample_matches(2)] progress_of_line_match [OF sample_matches(3)]
      progress_of_line_match [OF sample_matches(4)] progress_of_line_match [OF sample_matches(5)]
      sample_times sample_percents)

text \<open>
  Claim C6 says that the published progress is the parsed timestamp divided by the
  requested duration, as a percentage clamped to \<open>[0, 100]\<close> and rounded to the nearest
  integer. With a requested duration of one second the line \<open>time=00:00:00.155\<close> publishes
  16, while the percentage of the parsed timestamp is below 15.5 and its nearest integer
  is 15: the quotient and the product are rounded to 64 bits before \<open>Math.round\<close>. With
  a requested duration of 0, which a range whose ends coincide gives, the line
  \<open>time=00:00:00.00\<close> publishes NaN, and the progress of the export is NaN.
\<close>

theorem progress_not_nearest:
  "match_time ''time=00:00:00.155'' = Some ''00:00:00.155''
   \<and> parseFfmpegTime ''00:00:00.155'' = Fin (5584463537939415 / 2 ^ 55)
   \<and> progress_of_line (Fin 1) ''time=00:00:00.155'' = Some (Fin 16)
   \<and> spec_progress (5584463537939415 / 2 ^ 55) 1 = 15
   \<and> progress_of_line (Fin 0) ''time=00:00:00.00'' = Some NaN
   \<and> progress (handleExport (failing_run\<lparr>run_events := [Log ''time=00:00:00.00'']\<rparr>)
                 ((with_file ''a.mp4'' 3)\<lparr>trimRange := (Fin 3, Fin 3)\<rparr>)) = NaN"
proof -
  have m: "match_time ''time=00:00:00.155'' = Some ''00:00:00.155''"
    by (simp add: is_digit_def)
  have t: "parseFfmpegTime ''00:00:00.155'' = Fin (5584463537939415 / 2 ^ 55)"
    by (simp add: parse_defs num_eval)
  have p: "percent (Fin (5584463537939415 / 2 ^ 55)) (Fin 1) = Fin 16"
    by (simp add: percent_def num_eval)
  have a: "progress_of_line (Fin 1) ''time=00:00:00.155'' = Some (Fin 16)"
    by (simp only: progress_of_line_match [OF m] t p)
  have b: "spec_progress (5584463537939415 / 2 ^ 55) 1 = 15"
    by (simp add: spec_progress_def)
  have c: "progress_of_line (Fin 0) ''time=00:00:00.00'' = Some NaN"
    by (simp only: progress_of_line_match [OF sample_matches(2)] sample_times)
      (simp add: percent_def)
  have z: "js_sub (Fin 3) (Fin 3) = Fin 0"
    by (simp add: js_sub_def)
  have "progress (handleExport (failing_run\<lparr>run_events := [Log ''time=00:00:00.00'']\<rparr>)
                 ((with_file ''a.mp4'' 3)\<lparr>trimRange := (Fin 3, Fin 3)\<rparr>)) = NaN"
    by (simp add: example_defs export_defs z deliver_def c safeInputName_def extension_def
        toLowerCase_def lower_char_def)
  then show ?thesis using m t a b c by (intro conjI)
qed

text \<open>
  Claim C6, amended. For a log line with a \<open>time=\<close> token and a well-formed timestamp,
  and a positive requested duration, the published progress is an integer from 0 to 100
  that differs from the percentage of the parsed timestamp in the duration, clamped to
  \<open>[0, 100]\<close>, by at most a half and \<open>2 ^ - 44\<close>: it is the nearest integer, or where the
  percentage is that close to the middle between two integers, one of the two. A
  timestamp that is no smaller than the duration gives exactly 100. With a requested
  duration of 0 the published value is NaN for the timestamp 0 and 100 for any other.
\<close>

theorem progress_of_line_clamped:
  assumes "match_time msg = Some ts"
  shows "\<exists>t. 0 \<le> t \<and> parseFfmpegTime ts = Fin t
           \<and> (0 < d \<longrightarrow>
                (\<exists>k. progress_of_line (Fin d) msg = Some (Fin (of_int k))
                   \<and> 0 \<le> k \<and> k \<le> 100
                   \<and> \<bar>of_int k - max 0 (min 100 (t / d * 100))\<bar> \<le> 1 / 2 + 1 / 2 ^ 44
                   \<and> (d \<le> t \<longrightarrow> k = 100)
                   \<and> (logger s = ProgressLogger (Fin d) \<longrightarrow>
                         progress (deliver msg s) = Fin (of_int k))))
           \<and> (d = 0 \<longrightarrow>
                 progress_of_line (Fin d) msg = Some (if t = 0 then NaN else Fin 100))"
proof -
  obtain t where t: "0 \<le> t" "parseFfmpegTime ts = Fin t"
    using match_time_parse [OF assms] by blast
  have p: "progress_of_line (Fin d) msg = Some (percent (Fin t) (Fin d))"
    using progress_of_line_match [OF assms] t(2) by simp
  have pos: "\<exists>k. progress_of_line (Fin d) msg = Some (Fin (of_int k))
                   \<and> 0 \<le> k \<and> k \<le> 100
                   \<and> \<bar>of_int k - max 0 (min 100 (t / d * 100))\<bar> \<le> 1 / 2 + 1 / 2 ^ 44
                   \<and> (d \<le> t \<longrightarrow> k = 100)
                   \<and> (logger s = ProgressLogger (Fin d) \<longrightarrow>
                         progress (deliver msg s) = Fin (of_int k))"
    if d: "0 < d"
  proof -
    obtain k where k: "percent (Fin t) (Fin d) = Fin (of_int k)" "0 \<le> k" "k \<le> 100"
      using percent_int [OF t(1) d] by blast
    have near: "\<bar>of_int k - max 0 (min 100 (t / d * 100))\<bar> \<le> 1 / 2 + 1 / 2 ^ 44"
      using t(1) d k(1) by (rule percent_near)
    have full: "k = 100" if "d \<le> t"
    proof -
      have "(of_int k :: rat) = of_int 100" using percent_full [OF d that] k(1) by simp
      then show ?thesis by (simp only: of_int_eq_iff)
    qed
    have "progress (deliver msg s) = Fin (of_int k)" if "logger s = ProgressLogger (Fin d)"
      using that p k(1) by (simp add: deliver_progress)
    then show ?thesis using p k near full by auto
  qed
  have zero: "progress_of_line (Fin d) msg = Some (if t = 0 then NaN else Fin 100)" if "d = 0"
    using that p t(1) by (simp add: percent_zero_duration)
  show ?thesis using t pos zero by blast
qed

theorem progress_of_line_clamped_witness:
  "match_time ''frame=  10 time=00:00:05.00 bitrate=1'' = Some ''00:00:05.00''
   \<and> (0 :: rat) < 10
   \<and> progress_of_line (Fin 10) ''frame=  10 time=00:00:05.00 bitrate=1'' = Some (Fin 50)
   \<and> match_time ''time=00:00:25.00'' = Some ''00:00:25.00''
   \<and> parseFfmpegTime ''00:00:25.00'' = Fin 25 \<and> (10 :: rat) \<le> 25
   \<and> logger encoding_app = ProgressLogger (Fin 10)
   \<and> progress (deliver ''time=00:00:25.00'' encoding_app) = Fin 100
   \<and> progress_of_line (Fin 0) ''time=00:00:25.00'' = Some (Fin 100)"
proof -
  note m1 = sample_matches(1) and m2 = sample_matches(5)
  have l: "logger encoding_app = ProgressLogger (Fin 10)"
    by (simp add: encoding_app_def)
  have d: "(0 :: rat) < 10" by simp
  obtain t k where t: "parseFfmpegTime ''00:00:05.00'' = Fin t"
    and k: "progress_of_line (Fin 10) ''frame=  10 time=00:00:05.00 bitrate=1''
              = Some (Fin (of_int k))"
      "\<bar>of_int k - max 0 (min 100 (t / 10 * 100))\<bar> \<le> 1 / 2 + 1 / 2 ^ 44"
    using progress_of_line_clamped [OF m1, of 10 encoding_app] d by blast
  have "t = 5" using t by (simp add: sample_times)
  then have "\<bar>(of_int k :: rat) - of_int 50\<bar> \<le> 1 / 2 + 1 / 2 ^ 44" using k(2) by simp
  then have "\<bar>(of_int (k - 50) :: rat)\<bar> < of_int 1" by simp
  then have "\<bar>k - 50\<bar> < 1" by (simp only: of_int_abs [symmetric] of_int_less_iff)
  then have "k = 50" by simp
  then have r1: "progress_of_line (Fin 10) ''frame=  10 time=00:00:05.00 bitrate=1''
                   = Some (Fin 50)"
    using k(1) by simp
  obtain u j where u: "parseFfmpegTime ''00:00:25.00'' = Fin u"
    and j: "10 \<le> u \<longrightarrow> j = 100"
      "logger encoding_app = ProgressLogger (Fin 10) \<longrightarrow>
         progress (deliver ''time=00:00:25.00'' encoding_app) = Fin (of_int j)"
    using progress_of_line_clamped [OF m2, of 10 encoding_app] d by blast
  have u25: "u = 25" using u by (simp add: sample_times)
  then have "j = 100" using j(1) by simp
  then have r2: "progress (deliver ''time=00:00:25.00'' encoding_app) = Fin 100"
    using j(2) l by simp
  obtain v where v: "parseFfmpegTime ''00:00:25.00'' = Fin v"
    and z: "progress_of_line (Fin 0) ''time=00:00:25.00'' = Some (if v = 0 then NaN else Fin 100)"
    using progress_of_line_clamped [OF m2, of 0 encoding_app] by blast
  have "v = 25" using v by (simp add: sample_times)
  then have r3: "progress_of_line (Fin 0) ''time=00:00:25.00'' = Some (Fin 100)"
    using z by simp
  show ?thesis using m1 m2 r1 r2 r3 l sample_times(4) by simp
qed

text \<open>
  Claim C1 says that the published progress never decreases within an export. With a
  requested duration of ten seconds, a line with the timestamp 5 s followed by a line with
  the timestamp 2 s publishes 50 and then 20.
\<close>

theorem progress_regresses:
  "published (ProgressLogger (Fin 10)) regressing_lines = [Fin 50, Fin 20]
   \<and> \<not> sorted_wrt js_le (published (ProgressLogger (Fin 10)) regressing_lines)
   \<and> progress (pending [Log (hd regressing_lines)] encoding_app) = Fin 50
   \<and> progress (pending (map Log regressing_lines) encoding_app) = Fin 20"
proof -
  let ?l1 = "''frame=  10 time=00:00:05.00 bitrate=1''"
  let ?l2 = "''time=00:00:02.00''"
  have a: "progress_of_line (Fin 10) ?l1 = Some (Fin 50)"
    by (rule sample_progress)
  have b: "progress_of_line (Fin 10) ?l2 = Some (Fin 20)"
    by (rule sample_progress)
  have p: "published (ProgressLogger (Fin 10)) regressing_lines = [Fin 50, Fin 20]"
    by (simp add: regressing_lines_def published_def List.map_filter_simps a b)
  have l: "logger (deliver ?l1 encoding_app) = ProgressLogger (Fin 10)"
    by (simp add: deliver_def rerender_def stall_effect_def stall_cleanup_def encoding_app_def
        split: option.splits)
  have c: "logger encoding_app = ProgressLogger (Fin 10)"
    by (simp add: encoding_app_def)
  have q: "\<not> sorted_wrt js_le (published (ProgressLogger (Fin 10)) regressing_lines)"
    by (simp add: p)
  have r: "progress (pending [Log (hd regressing_lines)] encoding_app) = Fin 50"
    by (simp add: regressing_lines_def pending_def deliver_progress [OF c] a)
  have "progress (pending (map Log regressing_lines) encoding_app) = Fin 20"
    by (simp add: regressing_lines_def pending_def deliver_progress [OF l] b)
  then show ?thesis using p q r by (intro conjI)
qed

text \<open>
  Claim C1, amended. Each published value is computed from the timestamp of its own line
  alone, with no guard against a value smaller than the one before; the published values
  do not decrease whenever the timestamps of the lines do not decrease (the requested
  duration being positive).
\<close>

theorem published_follows_timestamps:
  assumes "0 < d" and "sorted_wrt js_le (List.map_filter line_time msgs)"
  shows "published (ProgressLogger (Fin d)) msgs
           = map (\<lambda>t. percent t (Fin d)) (List.map_filter line_time msgs)
         \<and> sorted_wrt js_le (published (ProgressLogger (Fin d)) msgs)"
  using published_map published_sorted [OF assms] by simp

theorem published_follows_timestamps_witness:
  "(0::rat) < 10
   \<and> List.map_filter line_time advancing_lines = [Fin 2, Fin 5]
   \<and> sorted_wrt js_le (List.map_filter line_time advancing_lines)
   \<and> published (ProgressLogger (Fin 10)) advancing_lines = [Fin 20, Fin 50]
   \<and> sorted_wrt js_le (published (ProgressLogger (Fin 10)) advancing_lines)"
proof -
  have d: "(0::rat) < 10" by simp
  have lt: "line_time ''time=00:00:02.00 '' = Some (Fin 2)"
    "line_time ''no timestamp'' = None"
    "line_time ''size=1 time=00:00:05.00'' = Some (Fin 5)"
    by (simp_all only: line_time_match sample_matches) (simp_all add: sample_times)
  have ts: "List.map_filter line_time advancing_lines = [Fin 2, Fin 5]"
    by (simp add: advancing_lines_def List.map_filter_simps lt)
  then have s: "sorted_wrt js_le (List.map_filter line_time advancing_lines)" by simp
  have "published (ProgressLogger (Fin 10)) advancing_lines = [Fin 20, Fin 50]"
    "sorted_wrt js_le (published (ProgressLogger (Fin 10)) advancing_lines)"
    using published_follows_timestamps [OF d s] by (simp_all add: ts sample_percents)
  then show ?thesis using d ts s by (intro conjI)
qed

section \<open>The passing of time\<close>

text \<open>
  Letting time pass in two steps is the same as letting it pass in one: the order in which
  \<open>elapse\<close> handles the timers that are due within one step does not show.
\<close>

lemma timers_left:
  "map (\<lambda>d. d - a) (filter (\<lambda>d. a < d) (map (\<lambda>d. d - b) (filter (\<lambda>d. b < d) ds)))
     = map (\<lambda>d. d - (b + a)) (filter (\<lambda>d. b + a < d) (ds :: nat list))"
  by (induction ds) auto

lemma timers_due:
  "(filter (\<lambda>d. d \<le> b + a) (ds :: nat list) \<noteq> []) =
     (filter (\<lambda>d. d \<le> b) ds \<noteq> []
      \<or> filter (\<lambda>d. d \<le> a) (map (\<lambda>d. d - b) (filter (\<lambda>d. b < d) ds)) \<noteq> [])"
  by (induction ds) auto

lemmas elapse_defs = elapse_def Let_def rerender_def stall_effect_def stall_cleanup_def

lemma elapse_add: "elapse a (elapse b s) = elapse (b + a) s"
proof -
  let ?db = "filter (\<lambda>d. d \<le> b) (doneTimers s) \<noteq> []"
  let ?da = "filter (\<lambda>d. d \<le> a) (map (\<lambda>d. d - b) (filter (\<lambda>d. b < d) (doneTimers s))) \<noteq> []"
  note due = timers_due [of b a "doneTimers s"]
  consider (none) "slowTimer s = None"
    | (early) r where "slowTimer s = Some r" "r \<le> b"
    | (late) r where "slowTimer s = Some r" "b < r" "r \<le> b + a"
    | (never) r where "slowTimer s = Some r" "b + a < r"
  proof (cases "slowTimer s")
    case None
    then show ?thesis using none by simp
  next
    case (Some r)
    have "r \<le> b \<or> (b < r \<and> r \<le> b + a) \<or> b + a < r" by linarith
    then show ?thesis using Some early late never by blast
  qed
  then show ?thesis
  proof cases
    case none
    then show ?thesis
      by (cases ?db; cases ?da; cases "isProcessing s")
        (simp_all add: elapse_defs timers_left due)
  next
    case early
    then have "r \<le> b + a" by simp
    then show ?thesis using early
      by (cases ?db; cases ?da; cases "isProcessing s")
        (simp_all add: elapse_defs timers_left due)
  next
    case late
    then have "\<not> r \<le> b" "r - b \<le> a" by simp_all
    then show ?thesis using late
      by (cases ?db; cases ?da; cases "isProcessing s")
        (simp_all add: elapse_defs timers_left due)
  next
    case never
    then have "\<not> r \<le> b" "\<not> r - b \<le> a" "\<not> r \<le> b + a" "r - b - a = r - (b + a)"
      by simp_all
    then show ?thesis using never
      by (cases ?db; cases ?da; cases "isProcessing s")
        (simp_all add: elapse_defs timers_left due)
  qed
qed

section \<open>The stall timer\<close>

lemma job_inv_rerender:
  assumes "isProcessing s" "doneTimers s = []"
    and "progress s = progress old \<and> isProcessing old \<longrightarrow> job_inv s"
  shows "job_inv (rerender old s)"
  using assms by (auto simp: rerender_def stall_effect_def stall_cleanup_def job_inv_def)

lemma job_inv_elapse: "job_inv s \<Longrightarrow> job_inv (elapse t s)"
  by (auto simp: elapse_def job_inv_def Let_def split: option.splits if_splits)

lemma job_inv_deliver: "job_inv s \<Longrightarrow> job_inv (deliver msg s)"
  by (auto simp: deliver_def job_inv_def rerender_def stall_effect_def stall_cleanup_def
      split: logger.splits option.splits)

lemma job_inv_on_event: "job_inv s \<Longrightarrow> job_inv (on_event ev s)"
  by (cases ev) (simp_all add: job_inv_elapse job_inv_deliver)

lemma job_inv_pending: "job_inv s \<Longrightarrow> job_inv (pending evs s)"
  unfolding pending_def by (induction evs arbitrary: s) (simp_all add: job_inv_on_event)

lemma job_inv_prepare:
  assumes "\<not> isProcessing s" "doneTimers s = []"
  shows "job_inv (export_prepare s)"
  using assms
  by (simp add: export_prepare_def rerender_def stall_effect_def stall_cleanup_def job_inv_def)

lemma job_inv_passive:
  "job_inv (s\<lparr>loaded := a\<rparr>) = job_inv s"
  "job_inv (s\<lparr>fs := b\<rparr>) = job_inv s"
  "job_inv (s\<lparr>message := c\<rparr>) = job_inv s"
  "job_inv (s\<lparr>runs := d\<rparr>) = job_inv s"
  "job_inv (s\<lparr>downloads := e\<rparr>) = job_inv s"
  "job_inv (s\<lparr>logger := l\<rparr>) = job_inv s"
  "job_inv (s\<lparr>error := g\<rparr>) = job_inv s"
  by (simp_all add: job_inv_def)

lemma job_inv_load: "job_inv s \<Longrightarrow> pred_sum job_inv job_inv (export_load sc s)"
  by (simp add: export_load_def Let_def job_inv_pending job_inv_passive)

lemma job_inv_write: "job_inv s \<Longrightarrow> pred_sum job_inv job_inv (export_write sc f s)"
  by (simp add: export_write_def Let_def job_inv_pending job_inv_passive)

lemma job_inv_run_begin: "job_inv s \<Longrightarrow> job_inv (run_begin f s0 s)"
  by (simp add: run_begin_def job_inv_passive)

lemma job_inv_run: "job_inv s \<Longrightarrow> pred_sum job_inv job_inv (export_run sc f s0 s)"
  by (simp add: export_run_def Let_def job_inv_pending job_inv_run_begin job_inv_passive
      split: option.splits)

lemma job_inv_cleanup: "job_inv s \<Longrightarrow> job_inv (export_cleanup f s)"
  by (simp add: export_cleanup_def Let_def job_inv_passive)

lemma job_inv_finish: "job_inv s \<Longrightarrow> pred_sum job_inv job_inv (export_finish f s)"
proof (cases "fs s safeOutputName")
  case None
  assume "job_inv s"
  then show ?thesis using None by (simp add: export_finish_def job_inv_passive)
next
  case (Some d)
  assume j: "job_inv s"
  let ?s2 = "export_cleanup f (s\<lparr>message := MsgGenerating, downloads := downloads s @ [d]\<rparr>)"
  have "job_inv ?s2" using j by (simp add: job_inv_cleanup job_inv_passive)
  then have "job_inv (rerender ?s2 (?s2\<lparr>message := MsgDone, progress := Fin 100\<rparr>))"
    by (intro job_inv_rerender) (auto simp: job_inv_def)
  then show ?thesis using Some by (simp add: export_finish_def Let_def)
qed

lemma pred_and_then:
  assumes "pred_sum P P r" "\<And>s. P s \<Longrightarrow> pred_sum P P (k s)"
  shows "pred_sum P P (and_then r k)"
  using assms by (cases r) (simp_all add: and_then_def)

lemma job_inv_try:
  assumes "\<not> isProcessing s" "doneTimers s = []"
  shows "pred_sum job_inv job_inv (export_try sc f s)"
  unfolding export_try_def
  by (intro pred_and_then job_inv_load job_inv_write job_inv_run job_inv_finish
      job_inv_prepare assms)

lemma job_inv_export:
  assumes "\<not> isProcessing s" "doneTimers s = []" "videoFile s = Some f"
  shows "isProcessing (handleExport sc s) \<and> doneTimers (handleExport sc s) = [1000]"
  using job_inv_try [OF assms(1,2), of sc f] assms(3)
  by (cases "export_try sc f s")
    (simp_all add: handleExport_def export_catch_def export_finally_def job_inv_def)

lemma trace_head: "list_all P (trace evs s) \<Longrightarrow> P s"
  by (cases evs) simp_all

lemma stall_window:
  assumes "isProcessing s" "doneTimers s = []"
    and "list_all (\<lambda>st. progress st = Fin 0) (trace evs s)"
    and "isSlow s \<or> (\<exists>r. slowTimer s = Some r \<and> 0 < r \<and> r \<le> total_wait evs)"
  shows "isSlow (pending evs s)"
  using assms
proof (induction evs arbitrary: s)
  case Nil
  then show ?case by (auto simp: pending_def total_wait_def)
next
  case (Cons ev evs)
  let ?s = "on_event ev s"
  have rest: "list_all (\<lambda>st. progress st = Fin 0) (trace evs ?s)"
    using Cons.prems(3) by simp
  have zero: "progress s = Fin 0" "progress ?s = Fin 0"
    using Cons.prems(3) trace_head [OF rest] by simp_all
  have step: "isProcessing ?s \<and> doneTimers ?s = []
      \<and> (isSlow ?s \<or> (\<exists>r. slowTimer ?s = Some r \<and> 0 < r \<and> r \<le> total_wait evs))"
  proof (cases ev)
    case (Wait t)
    then show ?thesis using Cons.prems(1,2,4)
      by (auto simp: elapse_def Let_def total_wait_def split: option.splits)
  next
    case (Log msg)
    then show ?thesis using Cons.prems(1,2,4) zero
      by (auto simp: deliver_def rerender_def stall_effect_def stall_cleanup_def total_wait_def
          split: logger.splits option.splits if_splits)
  qed
  have "isSlow (pending evs ?s)"
    using Cons.IH [of ?s] step rest by blast
  then show ?case by (simp add: pending_def)
qed

lemma stall_after_five_seconds:
  assumes "job_inv s"
    and "list_all (\<lambda>st. progress st = Fin 0) (trace evs s)"
    and "5000 \<le> total_wait evs"
  shows "isSlow (pending evs s)"
proof -
  have "progress s = Fin 0" using assms(2) trace_head by blast
  then have "isSlow s \<or> (\<exists>r. slowTimer s = Some r \<and> 0 < r \<and> r \<le> total_wait evs)"
    using assms(1,3) by (auto simp: job_inv_def split: option.splits)
  then show ?thesis using assms stall_window by (simp add: job_inv_def)
qed

lemma advance_resets:
  assumes "progress s = Fin 0" "progress (deliver msg s) \<noteq> Fin 0"
  shows "\<not> isSlow (deliver msg s)"
  using assms
  by (auto simp: deliver_def rerender_def stall_effect_def stall_cleanup_def
      split: logger.splits option.splits if_splits)

lemma done_resets:
  assumes "isProcessing s" "d \<in> set (doneTimers s)" "d \<le> t"
  shows "\<not> isSlow (elapse t s) \<and> \<not> isProcessing (elapse t s)"
proof -
  have "filter (\<lambda>d. d \<le> t) (doneTimers s) \<noteq> []"
    using assms(2,3) by (auto simp: filter_empty_conv)
  then show ?thesis using assms(1)
    by (simp add: elapse_def Let_def rerender_def stall_effect_def stall_cleanup_def
        split: option.splits)
qed

lemma flag_clear_while_advanced: "job_inv s \<Longrightarrow> progress s \<noteq> Fin 0 \<Longrightarrow> \<not> isSlow s"
  by (simp add: job_inv_def)

lemma still_processing:
  assumes "isProcessing s" "doneTimers s = [1000]" "t < 1000"
  shows "isProcessing (elapse t s)"
  using assms by (simp add: elapse_def Let_def split: option.splits)

lemma sbs_iff: "same_but_slow s t = (t = s\<lparr>isSlow := isSlow t\<rparr>)"
proof
  assume "same_but_slow s t"
  then have "s\<lparr>isSlow := False\<rparr>\<lparr>isSlow := isSlow t\<rparr> = t\<lparr>isSlow := False\<rparr>\<lparr>isSlow := isSlow t\<rparr>"
    by (simp only: same_but_slow_def)
  then show "t = s\<lparr>isSlow := isSlow t\<rparr>" by simp
next
  assume "t = s\<lparr>isSlow := isSlow t\<rparr>"
  then have "t\<lparr>isSlow := False\<rparr> = s\<lparr>isSlow := isSlow t\<rparr>\<lparr>isSlow := False\<rparr>" by simp
  then show "same_but_slow s t" by (simp add: same_but_slow_def)
qed

lemma sbs_upd: "same_but_slow s (s\<lparr>isSlow := b\<rparr>)"
  by (simp add: same_but_slow_def)

lemma sbs_elapse_upd: "same_but_slow (elapse t s) (elapse t (s\<lparr>isSlow := b\<rparr>))"
  by (simp add: same_but_slow_def elapse_def Let_def rerender_def stall_effect_def
      stall_cleanup_def split: option.splits)

lemma sbs_elapse: "same_but_slow s u \<Longrightarrow> same_but_slow (elapse t s) (elapse t u)"
  using sbs_elapse_upd [of t s "isSlow u"] by (simp add: sbs_iff [of s u])

lemma sbs_deliver_upd: "same_but_slow (deliver msg s) (deliver msg (s\<lparr>isSlow := b\<rparr>))"
  by (simp add: same_but_slow_def deliver_def rerender_def stall_effect_def
      stall_cleanup_def split: option.splits logger.splits)

lemma sbs_deliver: "same_but_slow s u \<Longrightarrow> same_but_slow (deliver msg s) (deliver msg u)"
  using sbs_deliver_upd [of msg s "isSlow u"] by (simp add: sbs_iff [of s u])

lemma sbs_on_event: "same_but_slow s u \<Longrightarrow> same_but_slow (on_event ev s) (on_event ev u)"
  by (cases ev) (simp_all add: sbs_elapse sbs_deliver)

lemma sbs_pending: "same_but_slow s u \<Longrightarrow> same_but_slow (pending evs s) (pending evs u)"
  unfolding pending_def by (induction evs arbitrary: s u) (simp_all add: sbs_on_event)

section \<open>The stall flag and the rest of the state\<close>

lemma sbs_fields:
  assumes "same_but_slow s u"
  shows "videoFile u = videoFile s" "trimRange u = trimRange s" "loaded u = loaded s"
    "fs u = fs s" "progress u = progress s" "isProcessing u = isProcessing s"
    "message u = message s" "error u = error s" "downloads u = downloads s"
    "runs u = runs s" "logger u = logger s" "doneTimers u = doneTimers s"
proof -
  have u: "u = s\<lparr>isSlow := isSlow u\<rparr>" using assms by (simp add: sbs_iff [of s u])
  show "videoFile u = videoFile s" by (subst u) simp
  show "trimRange u = trimRange s" by (subst u) simp
  show "loaded u = loaded s" by (subst u) simp
  show "fs u = fs s" by (subst u) simp
  show "progress u = progress s" by (subst u) simp
  show "isProcessing u = isProcessing s" by (subst u) simp
  show "message u = message s" by (subst u) simp
  show "error u = error s" by (subst u) simp
  show "downloads u = downloads s" by (subst u) simp
  show "runs u = runs s" by (subst u) simp
  show "logger u = logger s" by (subst u) simp
  show "doneTimers u = doneTimers s" by (subst u) simp
qed

lemma sbs_passive:
  assumes "same_but_slow s u"
  shows "same_but_slow (s\<lparr>loaded := a\<rparr>) (u\<lparr>loaded := a\<rparr>)"
    "same_but_slow (s\<lparr>fs := b\<rparr>) (u\<lparr>fs := b\<rparr>)"
    "same_but_slow (s\<lparr>message := c\<rparr>) (u\<lparr>message := c\<rparr>)"
    "same_but_slow (s\<lparr>runs := d\<rparr>) (u\<lparr>runs := d\<rparr>)"
    "same_but_slow (s\<lparr>downloads := e\<rparr>) (u\<lparr>downloads := e\<rparr>)"
    "same_but_slow (s\<lparr>logger := l\<rparr>) (u\<lparr>logger := l\<rparr>)"
    "same_but_slow (s\<lparr>error := g\<rparr>) (u\<lparr>error := g\<rparr>)"
    "same_but_slow (s\<lparr>doneTimers := h\<rparr>) (u\<lparr>doneTimers := h\<rparr>)"
proof -
  have u: "u = s\<lparr>isSlow := isSlow u\<rparr>" using assms by (simp add: sbs_iff [of s u])
  show "same_but_slow (s\<lparr>loaded := a\<rparr>) (u\<lparr>loaded := a\<rparr>)"
    by (subst u) (simp add: same_but_slow_def)
  show "same_but_slow (s\<lparr>fs := b\<rparr>) (u\<lparr>fs := b\<rparr>)"
    by (subst u) (simp add: same_but_slow_def)
  show "same_but_slow (s\<lparr>message := c\<rparr>) (u\<lparr>message := c\<rparr>)"
    by (subst u) (simp add: same_but_slow_def)
  show "same_but_slow (s\<lparr>runs := d\<rparr>) (u\<lparr>runs := d\<rparr>)"
    by (subst u) (simp add: same_but_slow_def)
  show "same_but_slow (s\<lparr>downloads := e\<rparr>) (u\<lparr>downloads := e\<rparr>)"
    by (subst u) (simp add: same_but_slow_def)
  show "same_but_slow (s\<lparr>logger := l\<rparr>) (u\<lparr>logger := l\<rparr>)"
    by (subst u) (simp add: same_but_slow_def)
  show "same_but_slow (s\<lparr>error := g\<rparr>) (u\<lparr>error := g\<rparr>)"
    by (subst u) (simp add: same_but_slow_def)
  show "same_but_slow (s\<lparr>doneTimers := h\<rparr>) (u\<lparr>doneTimers := h\<rparr>)"
    by (subst u) (simp add: same_but_slow_def)
qed

lemma sbs_prepare_upd: "same_but_slow (export_prepare s) (export_prepare (s\<lparr>isSlow := b\<rparr>))"
  by (simp add: same_but_slow_def export_prepare_def rerender_def stall_effect_def
      stall_cleanup_def)

lemma sbs_prepare: "same_but_slow s u \<Longrightarrow> same_but_slow (export_prepare s) (export_prepare u)"
  using sbs_prepare_upd [of s "isSlow u"] by (simp add: sbs_iff [of s u])

lemma sbs_load: "same_but_slow s u \<Longrightarrow> sbs_sum (export_load sc s) (export_load sc u)"
  by (simp add: export_load_def Let_def sbs_fields sbs_pending sbs_passive)

lemma sbs_write: "same_but_slow s u \<Longrightarrow> sbs_sum (export_write sc f s) (export_write sc f u)"
  by (simp add: export_write_def Let_def sbs_pending sbs_passive
      sbs_fields(4) [OF sbs_pending])

lemma sbs_run_begin:
  assumes "same_but_slow s0 u0" "same_but_slow s u"
  shows "same_but_slow (run_begin f s0 s) (run_begin f u0 u)"
  using assms(2) by (simp add: run_begin_def sbs_fields [OF assms(1)] sbs_fields(10) [OF assms(2)] sbs_passive)

lemma sbs_run:
  assumes "same_but_slow s0 u0" "same_but_slow s u"
  shows "sbs_sum (export_run sc f s0 s) (export_run sc f u0 u)"
proof -
  let ?s = "pending (run_events sc) (run_begin f s0 s)"
  let ?u = "pending (run_events sc) (run_begin f u0 u)"
  have p: "same_but_slow ?s ?u" using assms by (intro sbs_pending sbs_run_begin)
  then show ?thesis
    by (simp add: export_run_def Let_def sbs_passive sbs_fields(4) [OF p] split: option.splits)
qed

lemma sbs_cleanup: "same_but_slow s u \<Longrightarrow> same_but_slow (export_cleanup f s) (export_cleanup f u)"
  by (simp add: export_cleanup_def Let_def sbs_fields sbs_passive)

lemma sbs_finish_upd: "sbs_sum (export_finish f s) (export_finish f (s\<lparr>isSlow := b\<rparr>))"
  by (simp add: same_but_slow_def export_finish_def export_cleanup_def Let_def rerender_def
      stall_effect_def stall_cleanup_def split: option.splits)

lemma sbs_finish: "same_but_slow s u \<Longrightarrow> sbs_sum (export_finish f s) (export_finish f u)"
  using sbs_finish_upd [of f s "isSlow u"] by (simp add: sbs_iff [of s u])

lemma sbs_and_then:
  assumes "sbs_sum r r'" "\<And>s u. same_but_slow s u \<Longrightarrow> sbs_sum (k s) (k' u)"
  shows "sbs_sum (and_then r k) (and_then r' k')"
  using assms by (cases r; cases r') (simp_all add: and_then_def)

lemma sbs_try:
  assumes "same_but_slow s u"
  shows "sbs_sum (export_try sc f s) (export_try sc f u)"
  unfolding export_try_def
  by (intro sbs_and_then sbs_load sbs_write sbs_run sbs_finish sbs_prepare assms)

lemma sbs_export:
  assumes "same_but_slow s u"
  shows "same_but_slow (handleExport sc s) (handleExport sc u)"
proof (cases "videoFile s")
  case None
  then show ?thesis using assms sbs_fields(1) [OF assms] by (simp add: handleExport_def)
next
  case (Some f)
  have v: "videoFile u = Some f" using Some sbs_fields(1) [OF assms] by simp
  have "sbs_sum (export_try sc f s) (export_try sc f u)" using assms by (rule sbs_try)
  then show ?thesis using Some v
    by (cases "export_try sc f s"; cases "export_try sc f u")
      (simp_all add: handleExport_def export_catch_def export_finally_def sbs_passive sbs_fields)
qed

section \<open>The end of an export\<close>

lemma and_then_Inr:
  "and_then r k = Inr s' \<Longrightarrow> \<exists>s. r = Inr s \<and> k s = Inr s'"
  by (cases r) (simp_all add: and_then_def)

lemma pred_sum_Inr: "pred_sum P P r \<Longrightarrow> r = Inr s \<Longrightarrow> P s"
  by auto

lemma finish_done: "export_finish f s = Inr s' \<Longrightarrow> message s' = MsgDone"
  by (auto simp: export_finish_def Let_def rerender_def stall_effect_def stall_cleanup_def
      split: option.splits)

lemma try_done: "export_try sc f s = Inr s' \<Longrightarrow> message s' = MsgDone"
  unfolding export_try_def using and_then_Inr finish_done by blast

lemma try_run_fails:
  assumes "\<not> run_ok sc"
  shows "\<exists>s'. export_try sc f s = Inl s'"
proof -
  have "\<exists>s'. export_run sc f s x = Inl s'" for x
    using assms by (simp add: export_run_def Let_def)
  then have "\<exists>s'. and_then r (export_run sc f s) = Inl s'" for r
    by (cases r) (simp_all add: and_then_def)
  then obtain s' where
    "and_then (and_then (export_load sc (export_prepare s)) (export_write sc f))
       (export_run sc f s) = Inl s'"
    by blast
  then show ?thesis by (simp add: export_try_def and_then_def)
qed

lemma videoFile_elapse: "videoFile (elapse t s) = videoFile s"
  by (simp add: elapse_def Let_def rerender_def stall_effect_def stall_cleanup_def
      split: option.splits)

lemma videoFile_fixed: "a = a\<lparr>videoFile := v\<rparr> \<Longrightarrow> videoFile a = v"
proof -
  assume "a = a\<lparr>videoFile := v\<rparr>"
  then have "videoFile a = videoFile (a\<lparr>videoFile := v\<rparr>)" by (rule arg_cong)
  then show ?thesis by simp
qed

lemma videoFile_export: "videoFile (handleExport sc s) = videoFile s"
proof (cases "videoFile s")
  case None
  then show ?thesis by (simp add: handleExport_def)
next
  case (Some f)
  have e: "export_try sc f s = set_vf (videoFile s) (export_try sc f s)"
    using vf_try [where s = s and v = "videoFile s"] by simp
  show ?thesis
  proof (cases "export_try sc f s")
    case (Inl a)
    then have "a = a\<lparr>videoFile := videoFile s\<rparr>" using e by simp
    then have "videoFile a = videoFile s" by (rule videoFile_fixed)
    then show ?thesis using Some Inl
      by (simp add: handleExport_def export_catch_def export_finally_def)
  next
    case (Inr a)
    then have "a = a\<lparr>videoFile := videoFile s\<rparr>" using e by simp
    then have "videoFile a = videoFile s" by (rule videoFile_fixed)
    then show ?thesis using Some Inr
      by (simp add: handleExport_def export_finally_def)
  qed
qed

lemma export_outcome:
  assumes "videoFile s = Some f"
  shows "logger (handleExport sc s) = NoLogger
     \<and> (message (handleExport sc s) = MsgDone
         \<or> (message (handleExport sc s) = MsgNone \<and> error (handleExport sc s) = ErrExport))
     \<and> last (doneTimers (handleExport sc s)) = 1000
     \<and> 1000 \<in> set (doneTimers (handleExport sc s))"
  using assms try_done [of sc f s]
  by (cases "export_try sc f s")
    (simp_all add: handleExport_def export_catch_def export_finally_def)

lemma export_run_failure:
  assumes "videoFile s = Some f" "\<not> run_ok sc"
  shows "message (handleExport sc s) = MsgNone \<and> error (handleExport sc s) = ErrExport"
  using assms(1) try_run_fails [OF assms(2), of f s]
  by (auto simp: handleExport_def export_catch_def export_finally_def)

lemma elapse_cleared:
  assumes "1000 \<in> set (doneTimers s)"
  shows "\<not> isProcessing (elapse 1000 s)"
proof -
  have "filter (\<lambda>d. d \<le> 1000) (doneTimers s) \<noteq> []"
    using assms by (auto simp: filter_empty_conv)
  then show ?thesis
    by (simp add: elapse_def Let_def rerender_def stall_effect_def stall_cleanup_def
        split: option.splits)
qed

lemma elapse_timers_done:
  assumes "doneTimers s = [1000]"
  shows "doneTimers (elapse 1000 s) = []"
  using assms
  by (simp add: elapse_def Let_def rerender_def stall_effect_def stall_cleanup_def
      split: option.splits)

lemma fs_elapse: "fs (elapse t s) = fs s"
  by (simp add: elapse_def Let_def rerender_def stall_effect_def stall_cleanup_def
      split: option.splits)

lemma fs_deliver: "fs (deliver msg s) = fs s"
  by (simp add: deliver_def rerender_def stall_effect_def stall_cleanup_def
      split: logger.splits option.splits)

lemma fs_pending: "fs (pending evs s) = fs s"
  unfolding pending_def
proof (induction evs arbitrary: s)
  case Nil
  then show ?case by simp
next
  case (Cons ev evs)
  then show ?case by (cases ev) (simp_all add: fs_elapse fs_deliver)
qed

lemma try_thrown:
  assumes "videoFile s = Some f"
  shows "(message (handleExport sc s) = MsgDone) = (\<not> isl (export_try sc f s))"
  using assms try_done [of sc f s]
  by (cases "export_try sc f s")
    (simp_all add: handleExport_def export_catch_def export_finally_def)

lemma export_done_iff:
  assumes "videoFile s = Some f"
    and "and_then (export_load sc (export_prepare s)) (export_write sc f) = Inr sw"
  shows "(message (handleExport sc s) = MsgDone)
           = (run_ok sc \<and> (run_output sc \<noteq> None \<or> fs sw safeOutputName \<noteq> None))"
proof -
  have t: "export_try sc f s = and_then (export_run sc f s sw) (export_finish f)"
    unfolding export_try_def assms(2) by (simp add: and_then_def)
  have "fs (pending (run_events sc) (run_begin f s sw)) = fs sw"
    by (simp add: fs_pending run_begin_def)
  then have "(\<not> isl (and_then (export_run sc f s sw) (export_finish f)))
           = (run_ok sc \<and> (run_output sc \<noteq> None \<or> fs sw safeOutputName \<noteq> None))"
    by (cases "run_output sc"; cases "fs sw safeOutputName")
      (simp_all add: export_run_def export_finish_def and_then_def Let_def)
  then show ?thesis using try_thrown [OF assms(1), of sc] t by simp
qed

lemmas step_defs = elapse_def deliver_def rerender_def stall_effect_def stall_cleanup_def
  pending_def total_wait_def Let_def

text \<open>
  Claim C9. Every export that terminates, by success or by a thrown error, the failure of
  the run included, ends in a terminal outcome with the progress handler replaced by the
  empty one; one second later, and not before, it is marked as no longer in progress, with
  the source still selected and no timer pending, so that a new export can be requested.
\<close>

theorem export_always_settles:
  assumes "videoFile s = Some f"
  shows "logger (handleExport sc s) = NoLogger
     \<and> (message (handleExport sc s) = MsgDone
         \<or> (message (handleExport sc s) = MsgNone \<and> error (handleExport sc s) = ErrExport))
     \<and> (\<not> run_ok sc \<longrightarrow>
           message (handleExport sc s) = MsgNone \<and> error (handleExport sc s) = ErrExport)
     \<and> \<not> isProcessing (elapse 1000 (handleExport sc s))
     \<and> videoFile (elapse 1000 (handleExport sc s)) = Some f
     \<and> (\<not> isProcessing s \<and> doneTimers s = [] \<longrightarrow>
           isProcessing (handleExport sc s)
           \<and> (\<forall>t<1000. isProcessing (elapse t (handleExport sc s)))
           \<and> doneTimers (elapse 1000 (handleExport sc s)) = [])"
proof -
  have idle: "isProcessing (handleExport sc s)
           \<and> (\<forall>t<1000. isProcessing (elapse t (handleExport sc s)))
           \<and> doneTimers (elapse 1000 (handleExport sc s)) = []"
    if "\<not> isProcessing s \<and> doneTimers s = []"
    using job_inv_export [of s f sc] that assms still_processing elapse_timers_done by blast
  show ?thesis
    using export_outcome [OF assms, of sc] export_run_failure [OF assms, of sc]
      elapse_cleared [of "handleExport sc s"] videoFile_elapse [of 1000 "handleExport sc s"]
      videoFile_export [of sc s] assms idle
    by simp
qed

theorem export_always_settles_witness:
  "videoFile (with_file ''a.mp4'' 3) = Some (sample_file ''a.mp4'' 3)
   \<and> \<not> run_ok failing_run
   \<and> error (handleExport failing_run (with_file ''a.mp4'' 3)) = ErrExport
   \<and> \<not> isProcessing (with_file ''a.mp4'' 3) \<and> doneTimers (with_file ''a.mp4'' 3) = []
   \<and> (999 :: nat) < 1000
   \<and> isProcessing (elapse 999 (handleExport failing_run (with_file ''a.mp4'' 3)))
   \<and> \<not> isProcessing (elapse 1000 (handleExport failing_run (with_file ''a.mp4'' 3)))"
proof -
  have v: "videoFile (with_file ''a.mp4'' 3) = Some (sample_file ''a.mp4'' 3)"
    by (simp add: with_file_def sample_file_def)
  have r: "\<not> run_ok failing_run"
    by (simp add: failing_run_def)
  have i: "\<not> isProcessing (with_file ''a.mp4'' 3) \<and> doneTimers (with_file ''a.mp4'' 3) = []"
    by (simp add: with_file_def initial_app_def)
  show ?thesis
    using export_always_settles [OF v, of failing_run] r i v by simp
qed

text \<open>
  Claim C8. In an export requested while none was in progress, at any moment of the run of
  the encoder: once the progress has stayed at 0 for five seconds the stall flag is set,
  and whenever the progress is not 0 the flag is clear. The flag is cleared as soon as a
  log line moves the progress away from 0, and it is clear from the moment the export is
  marked as no longer in progress. The flag has no influence on anything else: from two
  states that differ in the flag alone, the whole export and each of its parts (load,
  write, run, the reading of the output, \<open>catch\<close> and \<open>finally\<close>) end on the same side,
  thrown or completed, in states that differ in the flag alone; and once the input is
  written the export completes exactly when the run returns and the output file exists,
  whatever time passed and whatever the flag was. So the flag neither changes the outcome
  nor cancels the export.
\<close>

theorem stall_flag_advisory:
  assumes "\<not> isProcessing s" and "doneTimers s = []"
    and "and_then (export_load sc (export_prepare s)) (export_write sc f) = Inr sw"
  shows "(list_all (\<lambda>st. progress st = Fin 0) (trace evs2 (pending evs1 (run_begin f s sw)))
            \<and> 5000 \<le> total_wait evs2
          \<longrightarrow> isSlow (pending evs2 (pending evs1 (run_begin f s sw))))
       \<and> (progress (pending evs1 (run_begin f s sw)) \<noteq> Fin 0
          \<longrightarrow> \<not> isSlow (pending evs1 (run_begin f s sw)))
       \<and> (progress se = Fin 0 \<and> progress (deliver msg se) \<noteq> Fin 0
          \<longrightarrow> \<not> isSlow (deliver msg se))
       \<and> (videoFile s = Some f \<longrightarrow> (\<forall>t\<ge>1000. \<not> isSlow (elapse t (handleExport sc s))))
       \<and> (same_but_slow x y \<longrightarrow>
            same_but_slow (handleExport sc x) (handleExport sc y)
            \<and> sbs_sum (export_load sc x) (export_load sc y)
            \<and> sbs_sum (export_write sc f x) (export_write sc f y)
            \<and> sbs_sum (export_run sc f s x) (export_run sc f s y)
            \<and> sbs_sum (export_finish f x) (export_finish f y)
            \<and> same_but_slow (export_catch x) (export_catch y)
            \<and> same_but_slow (export_finally x) (export_finally y))
       \<and> (videoFile s = Some f \<longrightarrow>
            (message (handleExport sc s) = MsgDone)
              = (run_ok sc \<and> (run_output sc \<noteq> None \<or> fs sw safeOutputName \<noteq> None)))"
proof -
  have "pred_sum job_inv job_inv (and_then (export_load sc (export_prepare s)) (export_write sc f))"
    by (intro pred_and_then job_inv_load job_inv_write job_inv_prepare assms(1,2))
  then have "job_inv sw" using assms(3) by simp
  then have j: "job_inv (pending evs (run_begin f s sw))" for evs
    by (intro job_inv_pending job_inv_run_begin)
  have a: "isSlow (pending evs2 (pending evs1 (run_begin f s sw)))"
    if "list_all (\<lambda>st. progress st = Fin 0) (trace evs2 (pending evs1 (run_begin f s sw)))
        \<and> 5000 \<le> total_wait evs2"
    using that stall_after_five_seconds [OF j] by blast
  have b: "\<not> isSlow (pending evs1 (run_begin f s sw))"
    if "progress (pending evs1 (run_begin f s sw)) \<noteq> Fin 0"
    using that flag_clear_while_advanced [OF j] by blast
  have c: "\<forall>t\<ge>1000. \<not> isSlow (elapse t (handleExport sc s))" if "videoFile s = Some f"
    using job_inv_export [OF assms(1,2) that, of sc] done_resets [of "handleExport sc s" 1000]
    by simp
  have d: "same_but_slow (handleExport sc x) (handleExport sc y)
            \<and> sbs_sum (export_load sc x) (export_load sc y)
            \<and> sbs_sum (export_write sc f x) (export_write sc f y)
            \<and> sbs_sum (export_run sc f s x) (export_run sc f s y)
            \<and> sbs_sum (export_finish f x) (export_finish f y)
            \<and> same_but_slow (export_catch x) (export_catch y)
            \<and> same_but_slow (export_finally x) (export_finally y)"
    if xy: "same_but_slow x y"
  proof -
    have "same_but_slow s s" by (simp add: same_but_slow_def)
    then have "sbs_sum (export_run sc f s x) (export_run sc f s y)" using xy by (rule sbs_run)
    moreover have "same_but_slow (export_catch x) (export_catch y)"
      "same_but_slow (export_finally x) (export_finally y)"
      using xy by (simp_all add: export_catch_def export_finally_def sbs_passive sbs_fields)
    ultimately show ?thesis using xy sbs_export sbs_load sbs_write sbs_finish by blast
  qed
  have e: "(message (handleExport sc s) = MsgDone)
              = (run_ok sc \<and> (run_output sc \<noteq> None \<or> fs sw safeOutputName \<noteq> None))"
    if "videoFile s = Some f"
    using that assms(3) by (rule export_done_iff)
  show ?thesis using a b c d e advance_resets by blast
qed

theorem stall_flag_advisory_witness:
  "\<not> isProcessing (with_file ''a.mp4'' 3) \<and> doneTimers (with_file ''a.mp4'' 3) = []
   \<and> and_then (export_load stalling_run (export_prepare (with_file ''a.mp4'' 3)))
        (export_write stalling_run (sample_file ''a.mp4'' 3)) = Inr written_app
   \<and> list_all (\<lambda>st. progress st = Fin 0)
        (trace [Wait 2500, Log ''time=00:00:00.00'', Wait 2500]
          (pending [Wait 100] (run_begin (sample_file ''a.mp4'' 3) (with_file ''a.mp4'' 3) written_app)))
   \<and> 5000 \<le> total_wait [Wait 2500, Log ''time=00:00:00.00'', Wait 2500]
   \<and> isSlow (pending [Wait 2500, Log ''time=00:00:00.00'', Wait 2500]
        (pending [Wait 100] (run_begin (sample_file ''a.mp4'' 3) (with_file ''a.mp4'' 3) written_app)))
   \<and> progress (pending [Wait 4000, Log ''time=00:00:05.00'', Wait 6000]
        (run_begin (sample_file ''a.mp4'' 3) (with_file ''a.mp4'' 3) written_app)) = Fin 50
   \<and> \<not> isSlow (pending [Wait 4000, Log ''time=00:00:05.00'', Wait 6000]
        (run_begin (sample_file ''a.mp4'' 3) (with_file ''a.mp4'' 3) written_app))
   \<and> progress slow_app = Fin 0 \<and> isSlow slow_app
   \<and> progress (deliver ''time=00:00:05.00'' slow_app) \<noteq> Fin 0
   \<and> \<not> isSlow (deliver ''time=00:00:05.00'' slow_app)
   \<and> videoFile (with_file ''a.mp4'' 3) = Some (sample_file ''a.mp4'' 3)
   \<and> (1000 :: nat) \<le> 1000
   \<and> \<not> isSlow (elapse 1000 (handleExport stalling_run (with_file ''a.mp4'' 3)))
   \<and> same_but_slow encoding_app slow_app \<and> isSlow slow_app \<noteq> isSlow encoding_app
   \<and> same_but_slow (handleExport stalling_run encoding_app) (handleExport stalling_run slow_app)
   \<and> sbs_sum (export_run stalling_run (sample_file ''a.mp4'' 3) (with_file ''a.mp4'' 3) encoding_app)
        (export_run stalling_run (sample_file ''a.mp4'' 3) (with_file ''a.mp4'' 3) slow_app)
   \<and> sbs_sum (export_finish (sample_file ''a.mp4'' 3) encoding_app)
        (export_finish (sample_file ''a.mp4'' 3) slow_app)
   \<and> run_ok stalling_run \<and> run_output stalling_run \<noteq> None
   \<and> isSlow (pending (run_events stalling_run)
        (run_begin (sample_file ''a.mp4'' 3) (with_file ''a.mp4'' 3) written_app))
   \<and> message (handleExport stalling_run (with_file ''a.mp4'' 3)) = MsgDone"
proof -
  let ?s = "with_file ''a.mp4'' 3"
  let ?f = "sample_file ''a.mp4'' 3"
  let ?evs = "[Wait 2500, Log ''time=00:00:00.00'', Wait 2500]"
  let ?adv = "[Wait 4000, Log ''time=00:00:05.00'', Wait 6000]"
  let ?r = "run_begin ?f ?s written_app"
  have i: "\<not> isProcessing ?s" "doneTimers ?s = []"
    by (simp_all add: with_file_def initial_app_def)
  have w: "and_then (export_load stalling_run (export_prepare ?s)) (export_write stalling_run ?f)
             = Inr written_app"
    by (simp add: written_app_def with_file_def initial_app_def sample_file_def plain_script_def
        stalling_run_def export_load_def export_prepare_def export_write_def and_then_def
        ten_seconds safeInputName_def extension_def toLowerCase_def lower_char_def step_defs)
  note p0 = sample_progress(2) and p5 = sample_progress(4)
  have t: "list_all (\<lambda>st. progress st = Fin 0) (trace ?evs (pending [Wait 100] ?r))"
    by (simp add: run_begin_def written_app_def with_file_def initial_app_def step_defs p0)
  have n: "5000 \<le> total_wait ?evs"
    by (simp add: total_wait_def)
  have a: "progress (pending ?adv ?r) = Fin 50"
    by (simp add: run_begin_def written_app_def with_file_def initial_app_def step_defs p5)
  have s0: "progress slow_app = Fin 0" "isSlow slow_app" "isSlow slow_app \<noteq> isSlow encoding_app"
    by (simp_all add: slow_app_def encoding_app_def with_file_def initial_app_def)
  have s1: "progress (deliver ''time=00:00:05.00'' slow_app) \<noteq> Fin 0"
    by (simp add: slow_app_def encoding_app_def deliver_progress p5)
  have v: "videoFile ?s = Some ?f"
    by (simp add: with_file_def sample_file_def)
  have e: "same_but_slow encoding_app slow_app"
    by (simp add: same_but_slow_def slow_app_def encoding_app_def)
  have o: "run_ok stalling_run" "run_output stalling_run \<noteq> None"
    by (simp_all add: stalling_run_def plain_script_def)
  have u: "isSlow (pending (run_events stalling_run) ?r)"
    by (simp add: stalling_run_def plain_script_def run_begin_def written_app_def with_file_def
        initial_app_def step_defs)
  have k: "(1000 :: nat) \<le> 1000" by simp
  note th1 = stall_flag_advisory [OF i w, of ?evs "[Wait 100]" slow_app "''time=00:00:05.00''"
      encoding_app slow_app]
  note th2 = stall_flag_advisory [OF i w, of ?evs ?adv slow_app "''time=00:00:05.00''"
      encoding_app slow_app]
  have c1: "isSlow (pending ?evs (pending [Wait 100] ?r))" using th1 t n by blast
  have c2: "\<not> isSlow (pending ?adv ?r)" using th2 a by simp
  have c3: "\<not> isSlow (deliver ''time=00:00:05.00'' slow_app)" using th1 s0 s1 by blast
  have c4: "\<not> isSlow (elapse 1000 (handleExport stalling_run ?s))" using th1 v k by blast
  have c5: "same_but_slow (handleExport stalling_run encoding_app) (handleExport stalling_run slow_app)"
    "sbs_sum (export_run stalling_run ?f ?s encoding_app) (export_run stalling_run ?f ?s slow_app)"
    "sbs_sum (export_finish ?f encoding_app) (export_finish ?f slow_app)"
    using th1 e by blast+
  have c6: "message (handleExport stalling_run ?s) = MsgDone" using th1 v o by blast
  show ?thesis using i w t n c1 a c2 s0 s1 c3 v k c4 e c5 o u c6 by (intro conjI)
qed

end
